theory Spec2Isabelle
  imports Main "HOL-Library.Word"
begin

section \<open>Characters and errors\<close>

text \<open>
  A Python \<open>str\<close> is a sequence of Unicode code points; the surrogate tokens of
  \<open>TripleHorseDeer\<close> lie outside Latin-1, so a character is modelled by its code point
  (the value of \<open>ord\<close>).  The eight operators \<open>+ - > < [ ] . ,\<close> are the code points
  43, 45, 62, 60, 91, 93, 46 and 44.
\<close>

type_synonym uchar = nat

definition operators :: "uchar list" where
  "operators = [43, 45, 62, 60, 91, 93, 46, 44]"

text \<open>
  Every way the source can raise: the three \<open>BrainfuckError\<close>s (error numbers 1, 4 and 2),
  the \<open>IndexError\<close> of an array or string index out of range, the \<open>OverflowError\<close> of a
  Python integer that does not fit the array's element type, the \<open>KeyError\<close> of a missing
  \<open>jumps\<close> entry, the \<open>UnicodeDecodeError\<close> of \<open>str(buf_out, encoding='UTF-8')\<close> and the
  plain \<open>Exception\<close> of \<open>_r2b\<close> on conflicting tokens.
\<close>

datatype error =
    UnmatchedNumber
  | UnmatchedBracket nat
  | MaxInstrExceeded
  | IndexError
  | OverflowError
  | KeyError nat
  | UnicodeDecodeError
  | TokenConflict

section \<open>Brainfuck.__init__: stripping and bracket discovery\<close>

text \<open>
  The two inner \<open>for\<close> loops of \<open>__init__\<close> have one body up to the exchange of the two
  bracket characters: \<open>up\<close> raises \<open>heap\<close>, \<open>down\<close> at \<open>heap = 0\<close> is the match and
  lowers \<open>heap\<close> otherwise.  \<open>scan up down cs heap\<close> runs that body over the characters \<open>cs\<close>
  in the order the loop visits them and returns how many characters were passed before
  the \<open>break\<close>, or \<open>None\<close> when the loop ends without one.
\<close>

fun scan :: "uchar \<Rightarrow> uchar \<Rightarrow> uchar list \<Rightarrow> nat \<Rightarrow> nat option" where
  "scan up down [] heap = None"
| "scan up down (c # cs) heap =
     (if c = up then map_option Suc (scan up down cs (heap + 1))
      else if c = down then
        (if heap = 0 then Some 0 else map_option Suc (scan up down cs (heap - 1)))
      else map_option Suc (scan up down cs heap))"

text \<open>\<open>for ip in range(d_ip+1, c_len)\<close>: the characters after \<open>d_ip\<close>, left to right.\<close>

definition match_fwd :: "uchar list \<Rightarrow> nat \<Rightarrow> nat option" where
  "match_fwd code d_ip = map_option (\<lambda>k. d_ip + 1 + k) (scan 91 93 (drop (d_ip + 1) code) 0)"

text \<open>\<open>for ip in range(d_ip-1, -1, -1)\<close>: the characters before \<open>d_ip\<close>, right to left.\<close>

definition match_bwd :: "uchar list \<Rightarrow> nat \<Rightarrow> nat option" where
  "match_bwd code d_ip = map_option (\<lambda>k. d_ip - 1 - k) (scan 93 91 (rev (take d_ip code)) 0)"

text \<open>
  The \<open>while d_ip < c_len\<close> loop.  A found partner is stored in \<open>jumps\<close>; the test
  \<open>d_ip not in self.jumps\<close> after the scan raises error 4.
\<close>

function discover :: "uchar list \<Rightarrow> nat \<Rightarrow> (nat \<rightharpoonup> nat) \<Rightarrow> error + (nat \<rightharpoonup> nat)" where
  "discover code d_ip jumps =
     (if d_ip < length code then
        (let instr = code ! d_ip in
         if instr = 91 then
           (let jumps' = (case match_fwd code d_ip of Some ip \<Rightarrow> jumps(d_ip \<mapsto> ip) | None \<Rightarrow> jumps)
            in if jumps' d_ip = None then Inl (UnmatchedBracket d_ip)
               else discover code (d_ip + 1) jumps')
         else if instr = 93 then
           (let jumps' = (case match_bwd code d_ip of Some ip \<Rightarrow> jumps(d_ip \<mapsto> ip) | None \<Rightarrow> jumps)
            in if jumps' d_ip = None then Inl (UnmatchedBracket d_ip)
               else discover code (d_ip + 1) jumps')
         else discover code (d_ip + 1) jumps)
      else Inr jumps)"
  by pat_completeness auto
termination
  by (relation "measure (\<lambda>(code, d_ip, jumps). length code - d_ip)") auto

declare discover.simps [simp del]

text \<open>The validated program: the stripped code and its jump table (\<open>c_len\<close> is \<open>len(code)\<close>).\<close>

record program =
  code :: "uchar list"
  jumps :: "nat \<rightharpoonup> nat"

definition c_len :: "program \<Rightarrow> nat" where
  "c_len p = length (code p)"

definition strip :: "uchar list \<Rightarrow> uchar list" where
  "strip src = filter (\<lambda>op. op \<in> set operators) src"

definition bf_init :: "uchar list \<Rightarrow> error + program" where
  "bf_init src =
     (if count_list src 91 \<noteq> count_list src 93 then Inl UnmatchedNumber
      else (let c = strip src in
            case discover c 0 Map.empty of
              Inl e \<Rightarrow> Inl e
            | Inr j \<Rightarrow> Inr \<lparr>code = c, jumps = j\<rparr>))"

section \<open>Brainfuck.run: the execution engine\<close>

text \<open>
  The input is a stream object; each \<open>input.read(1)\<close> either returns one character
  (\<open>Got c\<close>, with \<open>c\<close> its \<open>ord\<close>) or raises (\<open>Failed\<close>); once the list is used up
  \<open>read(1)\<close> returns the empty string, on which \<open>ord\<close> raises.  \<open>read1\<close> is the value of
  \<open>ord(input.read(1))\<close> (\<open>None\<close> when either call raised) with the rest of the stream.
\<close>

datatype read_event = Got uchar | Failed

fun read1 :: "read_event list \<Rightarrow> uchar option \<times> read_event list" where
  "read1 [] = (None, [])"
| "read1 (Got c # rest) = (Some c, rest)"
| "read1 (Failed # rest) = (None, rest)"

text \<open>
  The local variables of \<open>run\<close>, with the two stream objects it holds references to:
  \<open>inp\<close> is what is left of the input, \<open>out\<close> the texts written to the output so far,
  one entry per call of \<open>write\<close>.  The memory is a \<open>numpy\<close> array of \<open>uint8\<close>.
\<close>

record state =
  icnt :: nat
  mem :: "8 word list"
  buf_out :: "8 word list"
  ip :: nat
  dp :: int
  inp :: "read_event list"
  out :: "uchar list list"

text \<open>
  \<open>mem[dp]\<close> with a Python integer: an index in \<open>[0, n)\<close> is itself, an index in
  \<open>[-n, 0)\<close> counts from the end, any other index raises \<open>IndexError\<close>.
\<close>

definition np_index :: "nat \<Rightarrow> int \<Rightarrow> nat option" where
  "np_index n i =
     (if 0 \<le> i \<and> i < int n then Some (nat i)
      else if - int n \<le> i \<and> i < 0 then Some (nat (i + int n))
      else None)"

text \<open>
  \<open>mem[dp] = v\<close> with a Python integer \<open>v\<close>.  The source fixes no version of NumPy, and
  the two lines of the input operator depend on it: up to NumPy 1.x an integer outside
  \<open>0..255\<close> is stored reduced to its low eight bits (\<open>Wrapping\<close>), from NumPy 2 on it
  raises \<open>OverflowError\<close> (\<open>Checked\<close>).  The index is resolved before the value is
  converted, so an index off the array raises \<open>IndexError\<close> under both.
\<close>

datatype numpy = Wrapping | Checked

definition np_setitem :: "numpy \<Rightarrow> 8 word list \<Rightarrow> int \<Rightarrow> int \<Rightarrow> error + 8 word list" where
  "np_setitem np m i v =
     (case np_index (length m) i of
        None \<Rightarrow> Inl IndexError
      | Some k \<Rightarrow>
          if np = Checked \<and> (v < 0 \<or> 255 < v) then Inl OverflowError
          else Inr (m[k := word_of_int v]))"

text \<open>
  The \<open>if\<close>/\<open>elif\<close> chain of the loop body.  A raise is returned with the local variables
  and streams as they are at that moment.  \<open>mem[dp] += 1\<close> and \<open>mem[dp] -= 1\<close> are
  arithmetic on a \<open>uint8\<close> scalar and wrap under every NumPy.  The input operator first
  reads, which uses up the stream whatever happens next; its \<open>try\<close> body has no value
  (\<open>None\<close>) when \<open>read\<close>, \<open>ord\<close> or the store raised, and then the handler runs
  \<open>mem[dp] = -1\<close>, whose own raise is not caught.
\<close>

definition exec_instr :: "numpy \<Rightarrow> program \<Rightarrow> uchar \<Rightarrow> state \<Rightarrow> error \<times> state + state" where
  "exec_instr np p instr s =
     (if instr = 43 then
        (case np_index (length (mem s)) (dp s) of
           None \<Rightarrow> Inl (IndexError, s)
         | Some i \<Rightarrow> Inr (s\<lparr>mem := (mem s)[i := mem s ! i + 1]\<rparr>))
      else if instr = 45 then
        (case np_index (length (mem s)) (dp s) of
           None \<Rightarrow> Inl (IndexError, s)
         | Some i \<Rightarrow> Inr (s\<lparr>mem := (mem s)[i := mem s ! i - 1]\<rparr>))
      else if instr = 62 then Inr (s\<lparr>dp := dp s + 1\<rparr>)
      else if instr = 60 then Inr (s\<lparr>dp := dp s - 1\<rparr>)
      else if instr = 91 then
        (case np_index (length (mem s)) (dp s) of
           None \<Rightarrow> Inl (IndexError, s)
         | Some i \<Rightarrow>
             if mem s ! i = 0 then
               (case jumps p (ip s) of
                  None \<Rightarrow> Inl (KeyError (ip s), s)
                | Some j \<Rightarrow> Inr (s\<lparr>ip := j\<rparr>))
             else Inr s)
      else if instr = 93 then
        (case np_index (length (mem s)) (dp s) of
           None \<Rightarrow> Inl (IndexError, s)
         | Some i \<Rightarrow>
             if mem s ! i \<noteq> 0 then
               (case jumps p (ip s) of
                  None \<Rightarrow> Inl (KeyError (ip s), s)
                | Some j \<Rightarrow> Inr (s\<lparr>ip := j\<rparr>))
             else Inr s)
      else if instr = 46 then
        (case np_index (length (mem s)) (dp s) of
           None \<Rightarrow> Inl (IndexError, s)
         | Some i \<Rightarrow> Inr (s\<lparr>buf_out := buf_out s @ [mem s ! i]\<rparr>))
      else if instr = 44 then
        (case read1 (inp s) of
           (r, rest) \<Rightarrow>
             (case (case r of
                      None \<Rightarrow> None
                    | Some c \<Rightarrow>
                        (case np_setitem np (mem s) (dp s) (int c) of
                           Inl e \<Rightarrow> None
                         | Inr m \<Rightarrow> Some m)) of
                Some m \<Rightarrow> Inr (s\<lparr>mem := m, inp := rest\<rparr>)
              | None \<Rightarrow>
                  (case np_setitem np (mem s) (dp s) (- 1) of
                     Inl e \<Rightarrow> Inl (e, s\<lparr>inp := rest\<rparr>)
                   | Inr m \<Rightarrow> Inr (s\<lparr>mem := m, inp := rest\<rparr>))))
      else Inr s)"

text \<open>One pass through the loop body: the instruction, then \<open>ip += 1\<close> and \<open>icnt += 1\<close>.\<close>

definition step :: "numpy \<Rightarrow> program \<Rightarrow> state \<Rightarrow> error \<times> state + state" where
  "step np p s =
     (case exec_instr np p (code p ! ip s) s of
        Inl es \<Rightarrow> Inl es
      | Inr s' \<Rightarrow> Inr (s'\<lparr>ip := ip s' + 1, icnt := icnt s' + 1\<rparr>))"

text \<open>
  The \<open>while ip < c_len\<close> loop.  It need not end, so not returning is the value \<open>None\<close>.
  A raise is returned with the local variables at the moment of the raise, so that the
  number of executed steps (\<open>icnt\<close>) can be read off a failed run.
\<close>

partial_function (option) run_loop ::
  "numpy \<Rightarrow> program \<Rightarrow> int \<Rightarrow> state \<Rightarrow> (error \<times> state + state) option" where
  "run_loop np p max_instr s =
     (if ip s < c_len p then
        (if int (icnt s) > max_instr \<and> max_instr \<ge> 0 then Some (Inl (MaxInstrExceeded, s))
         else (case step np p s of
                 Inl es \<Rightarrow> Some (Inl es)
               | Inr s' \<Rightarrow> run_loop np p max_instr s'))
      else Some (Inr s))"

text \<open>
  \<open>str(buf_out, encoding='UTF-8')\<close>: strict UTF-8 decoding.  A lead byte fixes the length
  and the range of the second byte (no overlong forms, no surrogates, nothing above
  U+10FFFF); every further byte is a continuation byte \<open>0x80..0xBF\<close>.
\<close>

definition is_cont :: "8 word \<Rightarrow> bool" where
  "is_cont b = (128 \<le> unat b \<and> unat b \<le> 191)"

fun utf8_decode :: "8 word list \<Rightarrow> uchar list option" where
  "utf8_decode [] = Some []"
| "utf8_decode (b0 # bs) =
     (let a = unat b0 in
      if a < 128 then map_option ((#) a) (utf8_decode bs)
      else if 194 \<le> a \<and> a \<le> 223 then
        (case bs of
           b1 # r \<Rightarrow>
             if is_cont b1
             then map_option ((#) ((a - 192) * 64 + (unat b1 - 128))) (utf8_decode r)
             else None
         | _ \<Rightarrow> None)
      else if 224 \<le> a \<and> a \<le> 239 then
        (case bs of
           b1 # b2 # r \<Rightarrow>
             if (if a = 224 then 160 else 128) \<le> unat b1
                \<and> unat b1 \<le> (if a = 237 then 159 else 191) \<and> is_cont b2
             then map_option
                    ((#) ((a - 224) * 4096 + (unat b1 - 128) * 64 + (unat b2 - 128)))
                    (utf8_decode r)
             else None
         | _ \<Rightarrow> None)
      else if 240 \<le> a \<and> a \<le> 244 then
        (case bs of
           b1 # b2 # b3 # r \<Rightarrow>
             if (if a = 240 then 144 else 128) \<le> unat b1
                \<and> unat b1 \<le> (if a = 244 then 143 else 191) \<and> is_cont b2 \<and> is_cont b3
             then map_option
                    ((#) ((a - 240) * 262144 + (unat b1 - 128) * 4096
                          + (unat b2 - 128) * 64 + (unat b3 - 128)))
                    (utf8_decode r)
             else None
         | _ \<Rightarrow> None)
      else None)"

text \<open>
  The object: the input stream, the output stream (\<open>outputs\<close>, the texts written to
  \<open>self.output\<close>, one per call of \<open>write\<close>), whether
  \<open>__init__\<close> made the output itself (\<open>return_output\<close>), and the validated program.
\<close>

record brainfuck =
  input :: "read_event list"
  outputs :: "uchar list list"
  return_output :: bool
  prog :: program

text \<open>
  The whole of \<open>Brainfuck.__init__\<close>: \<open>output=None\<close> makes a fresh \<open>StringIO\<close> and sets
  \<open>return_output\<close>; a given output is kept, with whatever was written to it before.
\<close>

definition new_brainfuck ::
  "uchar list \<Rightarrow> read_event list \<Rightarrow> uchar list list option \<Rightarrow> error + brainfuck" where
  "new_brainfuck src i outp =
     (case bf_init src of
        Inl e \<Rightarrow> Inl e
      | Inr p \<Rightarrow>
          Inr \<lparr>input = i, outputs = (case outp of None \<Rightarrow> [] | Some w \<Rightarrow> w),
               return_output = (outp = None), prog = p\<rparr>)"

definition init_state :: "brainfuck \<Rightarrow> nat \<Rightarrow> state" where
  "init_state bf mem_size =
     \<lparr>icnt = 0, mem = replicate mem_size 0, buf_out = [], ip = 0, dp = 0,
      inp = input bf, out = outputs bf\<rparr>"

text \<open>
  \<open>run\<close>: the loop, then one \<open>write\<close> of the decoded buffer; with \<open>return_output\<close> the whole
  content of the output is read back and returned.  The result pairs the outcome (the
  error raised or the value returned, \<open>None\<close> for Python's \<open>None\<close>) with the object
  afterwards; the outer \<open>None\<close> is a run that never returns.
\<close>

definition run ::
  "numpy \<Rightarrow> brainfuck \<Rightarrow> nat \<Rightarrow> int \<Rightarrow> ((error + uchar list option) \<times> brainfuck) option" where
  "run np bf mem_size max_instr =
     (case run_loop np (prog bf) max_instr (init_state bf mem_size) of
        None \<Rightarrow> None
      | Some (Inl (e, s)) \<Rightarrow> Some (Inl e, bf\<lparr>input := inp s, outputs := out s\<rparr>)
      | Some (Inr s) \<Rightarrow>
          (case utf8_decode (buf_out s) of
             None \<Rightarrow> Some (Inl UnicodeDecodeError, bf\<lparr>input := inp s, outputs := out s\<rparr>)
           | Some txt \<Rightarrow>
               Some (Inr (if return_output bf then Some (concat (out s @ [txt])) else None),
                     bf\<lparr>input := inp s, outputs := out s @ [txt]\<rparr>)))"

section \<open>TripleHorseDeer: the token translator\<close>

text \<open>
  The eight surrogate tokens, in the order of \<open>operators\<close>, as code points:
  U+3044 U+306C U+3044, U+3068 U+3053, U+30A2 U+30F3, U+30AB U+30C8, U+3055 U+3093,
  U+3070 U+304B, U+30EA U+30BC and U+30A8 U+30B9 U+30BF.
\<close>

definition rep_operators :: "uchar list list" where
  "rep_operators =
     [[12356, 12396, 12356], [12392, 12371], [12450, 12531], [12459, 12488],
      [12373, 12435], [12400, 12363], [12522, 12476], [12456, 12473, 12479]]"

text \<open>\<open>xs.index(x)\<close> for an \<open>x\<close> that occurs in \<open>xs\<close>: the position of its first occurrence.\<close>

fun index_of :: "'a list \<Rightarrow> 'a \<Rightarrow> nat" where
  "index_of [] x = 0"
| "index_of (y # ys) x = (if y = x then 0 else Suc (index_of ys x))"

text \<open>
  The loop of \<open>_r2b\<close> on the characters still unread, with the prefix counter \<open>tc\<close> and the
  text written so far.  The comprehension indexes every token at \<open>tc\<close> and so raises
  \<open>IndexError\<close> when some token is that short; \<open>seek\<close> past the end of a \<open>StringIO\<close> is
  allowed, the next \<open>read\<close> returns the empty string (\<open>drop\<close>).
\<close>

fun r2b_loop :: "uchar list \<Rightarrow> nat \<Rightarrow> uchar list \<Rightarrow> error + uchar list" where
  "r2b_loop [] tc res = Inr res"
| "r2b_loop (t # rest) tc res =
     (if \<not> list_all (\<lambda>i. tc < length i) rep_operators then Inl IndexError
      else (let to = filter (\<lambda>i. i ! tc = t) rep_operators in
            if length to = 0 then r2b_loop rest 0 res
            else if length to = 1 then
              (let k = index_of rep_operators (hd to) in
               if k < length operators
               then r2b_loop (drop (length (hd to) - tc - 1) rest) 0 (res @ [operators ! k])
               else Inl IndexError)
            else if length (filter (\<lambda>i. length i = tc + 1) to) \<noteq> 0 then Inl TokenConflict
            else r2b_loop rest (tc + 1) res))"

definition r2b :: "uchar list \<Rightarrow> error + uchar list" where
  "r2b src = r2b_loop src 0 []"

text \<open>\<open>_b2r\<close>: every operator character is replaced by its token, any other is dropped.\<close>

fun b2r :: "uchar list \<Rightarrow> uchar list" where
  "b2r [] = []"
| "b2r (t # rest) =
     (if t \<in> set operators then rep_operators ! index_of operators t @ b2r rest
      else b2r rest)"

text \<open>\<open>TripleHorseDeer.__init__\<close>: translate, then construct as \<open>Brainfuck\<close> does.\<close>

definition new_thd ::
  "uchar list \<Rightarrow> read_event list \<Rightarrow> uchar list list option \<Rightarrow> error + brainfuck" where
  "new_thd src i outp = (case r2b src of Inl e \<Rightarrow> Inl e | Inr c \<Rightarrow> new_brainfuck c i outp)"

section \<open>Proper nesting and the partner of a bracket\<close>

text \<open>
  What it means for the brackets of a text to nest properly: reading from the left with a
  depth counter, no \<open>]\<close> comes at depth 0 and the depth is 0 at the end.
\<close>

fun bal :: "uchar list \<Rightarrow> nat \<Rightarrow> bool" where
  "bal [] d = (d = 0)"
| "bal (c # cs) d =
     (if c = 91 then bal cs (d + 1)
      else if c = 93 then 0 < d \<and> bal cs (d - 1)
      else bal cs d)"

definition nests_properly :: "uchar list \<Rightarrow> bool" where
  "nests_properly src = bal src 0"

text \<open>
  \<open>level up down cs h\<close> is the value of \<open>heap\<close> after the scanning loop has passed all of
  \<open>cs\<close> without a \<open>break\<close>, and \<open>None\<close> when it would have stopped inside \<open>cs\<close>.
  \<open>partner c i\<close> is the result of the scan that \<open>__init__\<close> runs for position \<open>i\<close>.
  \<open>discover_post\<close> states what the discovery loop started at \<open>k\<close> returns: either the
  error for the first bracket from \<open>k\<close> on whose scan finds nothing, or the table extended
  by the partners of all positions from \<open>k\<close> on.
\<close>

fun level :: "uchar \<Rightarrow> uchar \<Rightarrow> uchar list \<Rightarrow> nat \<Rightarrow> nat option" where
  "level up down [] h = Some h"
| "level up down (c # cs) h =
     (if c = up then level up down cs (h + 1)
      else if c = down then (if h = 0 then None else level up down cs (h - 1))
      else level up down cs h)"

definition partner :: "uchar list \<Rightarrow> nat \<Rightarrow> nat option" where
  "partner c i =
     (if c ! i = 91 then match_fwd c i else if c ! i = 93 then match_bwd c i else None)"

definition discover_post :: "uchar list \<Rightarrow> nat \<Rightarrow> (nat \<rightharpoonup> nat) \<Rightarrow> error + (nat \<rightharpoonup> nat) \<Rightarrow> bool" where
  "discover_post c k j r =
     (case r of
        Inl e \<Rightarrow>
          (\<exists>i. e = UnmatchedBracket i \<and> k \<le> i \<and> i < length c \<and> c ! i \<in> {91, 93}
               \<and> partner c i = None
               \<and> (\<forall>i'. k \<le> i' \<and> i' < i \<and> c ! i' \<in> {91, 93} \<longrightarrow> partner c i' \<noteq> None))
      | Inr j' \<Rightarrow>
          (\<forall>i. j' i = (if k \<le> i \<and> i < length c then partner c i else j i))
          \<and> (\<forall>i. k \<le> i \<and> i < length c \<and> c ! i \<in> {91, 93} \<longrightarrow> partner c i \<noteq> None))"

section \<open>The current cell\<close>

text \<open>
  \<open>on_tape s\<close>: the data pointer is an index of the tape, counted from the front or,
  when negative, from the end.  \<open>cell s\<close> is the cell it then stands for.  \<open>stored np r\<close> is
  the value the input operator leaves in that cell when \<open>ord(input.read(1))\<close> gave \<open>r\<close>,
  and \<open>None\<close> when neither the character nor the handler's \<open>-1\<close> can be stored.
\<close>

definition on_tape :: "state \<Rightarrow> bool" where
  "on_tape s = (- int (length (mem s)) \<le> dp s \<and> dp s < int (length (mem s)))"

definition cell :: "state \<Rightarrow> nat" where
  "cell s = (if 0 \<le> dp s then nat (dp s) else nat (dp s + int (length (mem s))))"

definition stored :: "numpy \<Rightarrow> uchar option \<Rightarrow> 8 word option" where
  "stored np r =
     (case r of
        Some c \<Rightarrow> if np = Checked \<and> 255 < c then None else Some (word_of_nat c)
      | None \<Rightarrow> if np = Checked then None else Some 255)"

section \<open>What a run does to the outside\<close>

text \<open>
  \<open>with_out w\<close> replaces the output stream in the result of a step or of the loop.
  \<open>effect bf\<close> is what a run of the object \<open>bf\<close> does: whether it raised and which error,
  the texts it wrote to the output (those after the ones already there), and the input
  that is left.
\<close>

definition with_out :: "uchar list list \<Rightarrow> error \<times> state + state \<Rightarrow> error \<times> state + state" where
  "with_out w = map_sum (apsnd (\<lambda>t. t\<lparr>out := w\<rparr>)) (\<lambda>t. t\<lparr>out := w\<rparr>)"

definition effect ::
  "brainfuck \<Rightarrow> (error + uchar list option) \<times> brainfuck
     \<Rightarrow> (error + unit) \<times> uchar list list \<times> read_event list" where
  "effect bf rb =
     (map_sum id (\<lambda>_. ()) (fst rb), drop (length (outputs bf)) (outputs (snd rb)), input (snd rb))"

section \<open>Properties of the execution engine\<close>

lemma np_index_less: "np_index n i = Some j \<Longrightarrow> j < n"
  by (auto simp: np_index_def split: if_splits)

lemma np_index_cell:
  "np_index (length (mem s)) (dp s) = (if on_tape s then Some (cell s) else None)"
  by (auto simp: np_index_def on_tape_def cell_def)

lemma cell_less: "on_tape s \<Longrightarrow> cell s < length (mem s)"
  using np_index_less[of "length (mem s)" "dp s" "cell s"] by (simp add: np_index_cell)

lemma word8_255: "(255 :: 8 word) = - 1"
  by simp

lemma bf_init_plus_loop:
  "bf_init [43, 91, 93] = Inr \<lparr>code = [43, 91, 93], jumps = [1 \<mapsto> 2, 2 \<mapsto> 1]\<rparr>"
  by (simp add: bf_init_def strip_def operators_def discover.simps match_fwd_def match_bwd_def
      Let_def numeral_2_eq_2)

lemma bf_init_loop:
  "bf_init [91, 93] = Inr \<lparr>code = [91, 93], jumps = [0 \<mapsto> 1, 1 \<mapsto> 0]\<rparr>"
  by (simp add: bf_init_def strip_def operators_def discover.simps match_fwd_def match_bwd_def
      Let_def)

lemma step_plus:
  "code p ! ip s = 43 \<Longrightarrow> np_index (length (mem s)) (dp s) = Some i \<Longrightarrow>
   step np p s = Inr (s\<lparr>mem := (mem s)[i := mem s ! i + 1], ip := ip s + 1, icnt := icnt s + 1\<rparr>)"
  by (simp add: step_def exec_instr_def)

lemma step_minus:
  "code p ! ip s = 45 \<Longrightarrow> np_index (length (mem s)) (dp s) = Some i \<Longrightarrow>
   step np p s = Inr (s\<lparr>mem := (mem s)[i := mem s ! i - 1], ip := ip s + 1, icnt := icnt s + 1\<rparr>)"
  by (simp add: step_def exec_instr_def)

lemma step_open_stay:
  "code p ! ip s = 91 \<Longrightarrow> np_index (length (mem s)) (dp s) = Some i \<Longrightarrow> mem s ! i \<noteq> 0 \<Longrightarrow>
   step np p s = Inr (s\<lparr>ip := ip s + 1, icnt := icnt s + 1\<rparr>)"
  by (simp add: step_def exec_instr_def)

lemma step_open_jump:
  "code p ! ip s = 91 \<Longrightarrow> np_index (length (mem s)) (dp s) = Some i \<Longrightarrow> mem s ! i = 0 \<Longrightarrow>
   jumps p (ip s) = Some j \<Longrightarrow>
   step np p s = Inr (s\<lparr>ip := j + 1, icnt := icnt s + 1\<rparr>)"
  by (simp add: step_def exec_instr_def)

lemma step_close_stay:
  "code p ! ip s = 93 \<Longrightarrow> np_index (length (mem s)) (dp s) = Some i \<Longrightarrow> mem s ! i = 0 \<Longrightarrow>
   step np p s = Inr (s\<lparr>ip := ip s + 1, icnt := icnt s + 1\<rparr>)"
  by (simp add: step_def exec_instr_def)

lemma step_close_jump:
  "code p ! ip s = 93 \<Longrightarrow> np_index (length (mem s)) (dp s) = Some i \<Longrightarrow> mem s ! i \<noteq> 0 \<Longrightarrow>
   jumps p (ip s) = Some j \<Longrightarrow>
   step np p s = Inr (s\<lparr>ip := j + 1, icnt := icnt s + 1\<rparr>)"
  by (simp add: step_def exec_instr_def)

lemma step_output:
  "code p ! ip s = 46 \<Longrightarrow> np_index (length (mem s)) (dp s) = Some i \<Longrightarrow>
   step np p s = Inr (s\<lparr>buf_out := buf_out s @ [mem s ! i], ip := ip s + 1, icnt := icnt s + 1\<rparr>)"
  by (simp add: step_def exec_instr_def)

lemma step_off_tape:
  "code p ! ip s \<in> {43, 45, 91, 93, 46} \<Longrightarrow> np_index (length (mem s)) (dp s) = None \<Longrightarrow>
   step np p s = Inl (IndexError, s)"
  by (auto simp: step_def exec_instr_def)

text \<open>
  The input operator in one piece: with the data pointer on the tape the step stores
  \<open>stored np r\<close> for the result \<open>r\<close> of the read, and raises \<open>OverflowError\<close> where there
  is no such value; off the tape it raises \<open>IndexError\<close>.  Either way the stream has
  moved on.
\<close>

lemma step_input:
  assumes "code p ! ip s = 44"
  shows "step np p s =
     (case np_index (length (mem s)) (dp s) of
        None \<Rightarrow> Inl (IndexError, s\<lparr>inp := snd (read1 (inp s))\<rparr>)
      | Some i \<Rightarrow>
          (case stored np (fst (read1 (inp s))) of
             None \<Rightarrow> Inl (OverflowError, s\<lparr>inp := snd (read1 (inp s))\<rparr>)
           | Some w \<Rightarrow>
               Inr (s\<lparr>mem := (mem s)[i := w], inp := snd (read1 (inp s)),
                      ip := ip s + 1, icnt := icnt s + 1\<rparr>)))"
proof (cases "read1 (inp s)")
  case (Pair r rest)
  show ?thesis
  proof (cases np)
    case Wrapping
    with Pair assms show ?thesis
      by (cases r)
        (auto simp: step_def exec_instr_def np_setitem_def stored_def word8_255
          split: option.splits)
  next
    case Checked
    with Pair assms show ?thesis
      by (cases r)
        (auto simp: step_def exec_instr_def np_setitem_def stored_def word8_255
          split: option.splits)
  qed
qed

subsection \<open>The instruction budget\<close>

text \<open>
  Once \<open>+[]\<close> has reached its \<open>]\<close> with a non-zero cell it stays there: every step jumps
  to the \<open>[\<close> and moves on to the \<open>]\<close> again, until the counter is above the budget.
\<close>

lemma spin:
  assumes "code p = [43, 91, 93]" "jumps p 2 = Some 1"
  shows "ip s = 2 \<Longrightarrow> np_index (length (mem s)) (dp s) = Some i \<Longrightarrow> mem s ! i \<noteq> 0 \<Longrightarrow>
     0 \<le> b \<Longrightarrow> int (icnt s) \<le> b + 1 \<Longrightarrow> k = nat (b + 1) - icnt s \<Longrightarrow>
     run_loop np p b s = Some (Inl (MaxInstrExceeded, s\<lparr>icnt := nat (b + 1)\<rparr>))"
proof (induction k arbitrary: s)
  case 0
  then have "icnt s = nat (b + 1)" by simp
  with 0 assms show ?case
    by (subst run_loop.simps) (simp add: c_len_def)
next
  case (Suc k)
  let ?s' = "s\<lparr>ip := 2, icnt := icnt s + 1\<rparr>"
  have st: "step np p s = Inr ?s'"
    using step_close_jump[of p s i 1 np] Suc.prems assms by simp
  have "run_loop np p b ?s' = Some (Inl (MaxInstrExceeded, ?s'\<lparr>icnt := nat (b + 1)\<rparr>))"
    using Suc.prems by (intro Suc.IH) auto
  moreover have "\<not> int (icnt s) > b" using Suc.prems by linarith
  ultimately show ?case using st Suc.prems assms
    by (subst run_loop.simps) (simp add: c_len_def)
qed

text \<open>
  For every budget \<open>b \<ge> 0\<close> and every tape with at least one cell, \<open>+[]\<close> is stopped with
  the instruction counter at \<open>b + 1\<close>.
\<close>

lemma plus_loop_budget:
  assumes p: "code p = [43, 91, 93]" "jumps p 2 = Some 1" and b: "0 \<le> b" and n: "0 < n"
  shows "run_loop np p b
           \<lparr>icnt = 0, mem = replicate n 0, buf_out = [], ip = 0, dp = 0, inp = i, out = w\<rparr>
    = Some (Inl (MaxInstrExceeded,
        \<lparr>icnt = nat b + 1, mem = (replicate n 0)[0 := 1], buf_out = [],
         ip = (if b = 0 then 1 else 2), dp = 0, inp = i, out = w\<rparr>))"
proof -
  let ?s0 = "\<lparr>icnt = 0, mem = replicate n 0, buf_out = [], ip = 0, dp = 0, inp = i, out = w\<rparr>"
  let ?s1 = "\<lparr>icnt = 1, mem = (replicate n 0)[0 := 1], buf_out = [], ip = 1, dp = 0, inp = i, out = w\<rparr>"
  let ?s2 = "\<lparr>icnt = 2, mem = (replicate n 0)[0 := 1], buf_out = [], ip = 2, dp = 0, inp = i, out = w\<rparr>"
  have idx: "np_index n 0 = Some 0" using n by (simp add: np_index_def)
  have st0: "step np p ?s0 = Inr ?s1"
    using step_plus[of p ?s0 0 np] p idx n by simp
  have r0: "run_loop np p b ?s0 = run_loop np p b ?s1"
    using st0 p b by (subst run_loop.simps) (simp add: c_len_def)
  show ?thesis
  proof (cases "b = 0")
    case True
    then have "run_loop np p b ?s1 = Some (Inl (MaxInstrExceeded, ?s1))"
      using p by (subst run_loop.simps) (simp add: c_len_def)
    with True r0 show ?thesis by simp
  next
    case False
    with b have b1: "1 \<le> b" by simp
    have st1: "step np p ?s1 = Inr ?s2"
      using step_open_stay[of p ?s1 0 np] p idx n by simp
    have r1: "run_loop np p b ?s1 = run_loop np p b ?s2"
      using st1 p b1 by (subst run_loop.simps) (simp add: c_len_def)
    have "run_loop np p b ?s2 = Some (Inl (MaxInstrExceeded, ?s2\<lparr>icnt := nat (b + 1)\<rparr>))"
      using p idx n b1 by (intro spin[where i = 0 and k = "nat (b + 1) - 2"]) auto
    moreover have "nat (b + 1) = nat b + 1" using b by simp
    ultimately show ?thesis using r0 r1 False by simp
  qed
qed

text \<open>
  Claim C1 asks for a run of \<open>+[]\<close> with budget 1000 to fail after exactly 1000 executed
  steps, and the docstring of \<open>run\<close> promises a maximum number of instructions of
  \<open>max_instr\<close>.  The code tests \<open>icnt > max_instr\<close> before the step, with \<open>icnt\<close> the number
  of steps executed so far, so the step with the counter at 1000 still runs: \<open>+[]\<close> is
  stopped with the counter at 1001.  In the same way, with the budget 0 the program \<open>+\<close>
  executes its one instruction and ends without an error.
\<close>

theorem budget_off_by_one:
  "bf_init [43, 91, 93] = Inr \<lparr>code = [43, 91, 93], jumps = [1 \<mapsto> 2, 2 \<mapsto> 1]\<rparr>
   \<and> run_loop Wrapping \<lparr>code = [43, 91, 93], jumps = [1 \<mapsto> 2, 2 \<mapsto> 1]\<rparr> 1000
        \<lparr>icnt = 0, mem = [0], buf_out = [], ip = 0, dp = 0, inp = [], out = []\<rparr>
     = Some (Inl (MaxInstrExceeded,
          \<lparr>icnt = 1001, mem = [1], buf_out = [], ip = 2, dp = 0, inp = [], out = []\<rparr>))
   \<and> run_loop Checked \<lparr>code = [43, 91, 93], jumps = [1 \<mapsto> 2, 2 \<mapsto> 1]\<rparr> 1000
        \<lparr>icnt = 0, mem = [0], buf_out = [], ip = 0, dp = 0, inp = [], out = []\<rparr>
     = Some (Inl (MaxInstrExceeded,
          \<lparr>icnt = 1001, mem = [1], buf_out = [], ip = 2, dp = 0, inp = [], out = []\<rparr>))
   \<and> run_loop Wrapping \<lparr>code = [43], jumps = Map.empty\<rparr> 0
        \<lparr>icnt = 0, mem = [0], buf_out = [], ip = 0, dp = 0, inp = [], out = []\<rparr>
     = Some (Inr \<lparr>icnt = 1, mem = [1], buf_out = [], ip = 1, dp = 0, inp = [], out = []\<rparr>)"
proof (intro conjI)
  show "bf_init [43, 91, 93] = Inr \<lparr>code = [43, 91, 93], jumps = [1 \<mapsto> 2, 2 \<mapsto> 1]\<rparr>"
    by (rule bf_init_plus_loop)
  show "run_loop Wrapping \<lparr>code = [43, 91, 93], jumps = [1 \<mapsto> 2, 2 \<mapsto> 1]\<rparr> 1000
        \<lparr>icnt = 0, mem = [0], buf_out = [], ip = 0, dp = 0, inp = [], out = []\<rparr>
     = Some (Inl (MaxInstrExceeded,
          \<lparr>icnt = 1001, mem = [1], buf_out = [], ip = 2, dp = 0, inp = [], out = []\<rparr>))"
    using plus_loop_budget[of "\<lparr>code = [43, 91, 93], jumps = [1 \<mapsto> 2, 2 \<mapsto> 1]\<rparr>" 1000 1
        Wrapping "[]" "[]"]
    by simp
  show "run_loop Checked \<lparr>code = [43, 91, 93], jumps = [1 \<mapsto> 2, 2 \<mapsto> 1]\<rparr> 1000
        \<lparr>icnt = 0, mem = [0], buf_out = [], ip = 0, dp = 0, inp = [], out = []\<rparr>
     = Some (Inl (MaxInstrExceeded,
          \<lparr>icnt = 1001, mem = [1], buf_out = [], ip = 2, dp = 0, inp = [], out = []\<rparr>))"
    using plus_loop_budget[of "\<lparr>code = [43, 91, 93], jumps = [1 \<mapsto> 2, 2 \<mapsto> 1]\<rparr>" 1000 1
        Checked "[]" "[]"]
    by simp
  show "run_loop Wrapping \<lparr>code = [43], jumps = Map.empty\<rparr> 0
        \<lparr>icnt = 0, mem = [0], buf_out = [], ip = 0, dp = 0, inp = [], out = []\<rparr>
     = Some (Inr \<lparr>icnt = 1, mem = [1], buf_out = [], ip = 1, dp = 0, inp = [], out = []\<rparr>)"
    by (simp add: run_loop.simps c_len_def step_def exec_instr_def np_index_def)
qed

subsection \<open>The instruction pointer\<close>

text \<open>
  Claim C2, as the code has it.  A step that succeeds always adds one to the instruction
  counter.  When the operator is \<open>[\<close> and the current cell is 0, or the operator is \<open>]\<close> and
  the current cell is not 0, the body assigns the partner position and the common
  \<open>ip += 1\<close> still follows, so the step ends one past the partner; every other step ends
  at the next position.
\<close>

theorem step_instruction_pointer:
  assumes "step np p s = Inr s'"
  shows "ip s' =
           (if (code p ! ip s = 91 \<and> mem s ! the (np_index (length (mem s)) (dp s)) = 0)
               \<or> (code p ! ip s = 93 \<and> mem s ! the (np_index (length (mem s)) (dp s)) \<noteq> 0)
            then the (jumps p (ip s)) + 1
            else ip s + 1)
         \<and> icnt s' = icnt s + 1"
proof (cases "code p ! ip s = 44")
  case True
  from assms show ?thesis unfolding step_input[OF True] using True
    by (auto split: option.splits)
next
  case False
  with assms show ?thesis
    by (auto simp: step_def exec_instr_def split: if_splits option.splits sum.splits)
qed

theorem step_instruction_pointer_witness:
  "step Wrapping \<lparr>code = [91, 93], jumps = [0 \<mapsto> 1, 1 \<mapsto> 0]\<rparr>
        \<lparr>icnt = 0, mem = [0], buf_out = [], ip = 0, dp = 0, inp = [], out = []\<rparr>
     = Inr \<lparr>icnt = 1, mem = [0], buf_out = [], ip = 2, dp = 0, inp = [], out = []\<rparr>
   \<and> ip \<lparr>icnt = 1, mem = [0], buf_out = [], ip = 2, dp = 0, inp = [], out = []\<rparr>
     = the (jumps \<lparr>code = [91, 93], jumps = [0 \<mapsto> 1, 1 \<mapsto> 0]\<rparr> 0) + 1"
  using step_instruction_pointer[of Wrapping "\<lparr>code = [91, 93], jumps = [0 \<mapsto> 1, 1 \<mapsto> 0]\<rparr>"
      "\<lparr>icnt = 0, mem = [0], buf_out = [], ip = 0, dp = 0, inp = [], out = []\<rparr>"
      "\<lparr>icnt = 1, mem = [0], buf_out = [], ip = 2, dp = 0, inp = [], out = []\<rparr>"]
  by (simp add: step_def exec_instr_def np_index_def)

text \<open>
  The claim as written fails: in \<open>[]\<close> the partner of position 0 is position 1, and the
  step at position 0 on a zero cell ends at position 2.
\<close>

theorem jump_lands_on_partner_counterexample:
  "jumps (projr (bf_init [91, 93])) 0 = Some 1
   \<and> map_sum id ip (step Wrapping (projr (bf_init [91, 93]))
        \<lparr>icnt = 0, mem = [0], buf_out = [], ip = 0, dp = 0, inp = [], out = []\<rparr>) = Inr 2"
  by (simp add: bf_init_loop step_def exec_instr_def np_index_def)

subsection \<open>The data pointer\<close>

text \<open>
  The claim C3 as written fails: \<open><+\<close> on a tape of three cells moves the data pointer to
  \<open>-1\<close> without any error, and the increment then lands in the last cell.
\<close>

theorem data_pointer_unchecked_counterexample:
  "run_loop Wrapping (projr (bf_init [60, 43])) (- 1)
      \<lparr>icnt = 0, mem = [0, 0, 0], buf_out = [], ip = 0, dp = 0, inp = [], out = []\<rparr>
   = Some (Inr \<lparr>icnt = 2, mem = [0, 0, 1], buf_out = [], ip = 2, dp = - 1, inp = [], out = []\<rparr>)"
  by (simp add: run_loop.simps bf_init_def strip_def operators_def discover.simps Let_def c_len_def
      step_def exec_instr_def np_index_def)

text \<open>Changing a cell other than the current one before a step, or after it, is the same.\<close>

lemma step_other_cell:
  assumes "j \<noteq> cell s \<or> \<not> on_tape s"
  shows "step np p (s\<lparr>mem := (mem s)[j := v]\<rparr>)
     = map_sum (apsnd (\<lambda>t. t\<lparr>mem := (mem t)[j := v]\<rparr>)) (\<lambda>t. t\<lparr>mem := (mem t)[j := v]\<rparr>)
         (step np p s)"
proof (cases "code p ! ip s = 44")
  case True
  have i: "np_index (length (mem s)) (dp s) \<noteq> Some j"
    using assms by (auto simp: np_index_cell)
  have "code p ! ip (s\<lparr>mem := (mem s)[j := v]\<rparr>) = 44" using True by simp
  from step_input[OF this] step_input[OF True] i show ?thesis
    by (auto simp: list_update_swap split: option.splits)
next
  case False
  have "np_index (length (mem s)) (dp s) \<noteq> Some j"
    using assms by (auto simp: np_index_cell)
  with False show ?thesis
    by (auto simp: step_def exec_instr_def list_update_swap split: option.splits)
qed

text \<open>
  Claim C3, as the code has it.  The two move operators only add or subtract one: they
  never fail and the data pointer is neither wrapped nor clamped.  The six operators that
  use the current cell take the data pointer as an array index.  With the data pointer
  outside \<open>[-n, n)\<close> each of them fails with \<open>IndexError\<close>.  With the data pointer in
  \<open>[-n, n)\<close> each of them works on the cell \<open>cell s\<close>, which is cell \<open>dp\<close> for \<open>dp\<close> in
  \<open>[0, n)\<close> and cell \<open>n + dp\<close> for \<open>dp\<close> in \<open>[-n, 0)\<close>: the theorem gives the whole result
  of the step for each.  No other cell is read or written: changing another cell \<open>j\<close>
  before the step changes nothing but that cell after it.
\<close>

theorem data_pointer_policy:
  "(code p ! ip s = 62 \<longrightarrow>
      step np p s = Inr (s\<lparr>dp := dp s + 1, ip := ip s + 1, icnt := icnt s + 1\<rparr>))
 \<and> (code p ! ip s = 60 \<longrightarrow>
      step np p s = Inr (s\<lparr>dp := dp s - 1, ip := ip s + 1, icnt := icnt s + 1\<rparr>))
 \<and> (\<not> on_tape s \<and> code p ! ip s \<in> {43, 45, 91, 93, 46} \<longrightarrow>
      step np p s = Inl (IndexError, s))
 \<and> (\<not> on_tape s \<and> code p ! ip s = 44 \<longrightarrow>
      step np p s = Inl (IndexError, s\<lparr>inp := snd (read1 (inp s))\<rparr>))
 \<and> (on_tape s \<longrightarrow>
      cell s < length (mem s)
      \<and> (int (cell s) = dp s \<or> int (cell s) = dp s + int (length (mem s)))
      \<and> (code p ! ip s = 43 \<longrightarrow>
            step np p s = Inr (s\<lparr>mem := (mem s)[cell s := mem s ! cell s + 1],
                                  ip := ip s + 1, icnt := icnt s + 1\<rparr>))
      \<and> (code p ! ip s = 45 \<longrightarrow>
            step np p s = Inr (s\<lparr>mem := (mem s)[cell s := mem s ! cell s - 1],
                                  ip := ip s + 1, icnt := icnt s + 1\<rparr>))
      \<and> (code p ! ip s = 46 \<longrightarrow>
            step np p s = Inr (s\<lparr>buf_out := buf_out s @ [mem s ! cell s],
                                  ip := ip s + 1, icnt := icnt s + 1\<rparr>))
      \<and> (code p ! ip s = 91 \<longrightarrow>
            step np p s =
              (if mem s ! cell s \<noteq> 0 then Inr (s\<lparr>ip := ip s + 1, icnt := icnt s + 1\<rparr>)
               else (case jumps p (ip s) of
                       None \<Rightarrow> Inl (KeyError (ip s), s)
                     | Some k \<Rightarrow> Inr (s\<lparr>ip := k + 1, icnt := icnt s + 1\<rparr>))))
      \<and> (code p ! ip s = 93 \<longrightarrow>
            step np p s =
              (if mem s ! cell s = 0 then Inr (s\<lparr>ip := ip s + 1, icnt := icnt s + 1\<rparr>)
               else (case jumps p (ip s) of
                       None \<Rightarrow> Inl (KeyError (ip s), s)
                     | Some k \<Rightarrow> Inr (s\<lparr>ip := k + 1, icnt := icnt s + 1\<rparr>))))
      \<and> (code p ! ip s = 44 \<longrightarrow>
            step np p s =
              (case stored np (fst (read1 (inp s))) of
                 None \<Rightarrow> Inl (OverflowError, s\<lparr>inp := snd (read1 (inp s))\<rparr>)
               | Some w \<Rightarrow>
                   Inr (s\<lparr>mem := (mem s)[cell s := w], inp := snd (read1 (inp s)),
                          ip := ip s + 1, icnt := icnt s + 1\<rparr>))))
 \<and> (j \<noteq> cell s \<or> \<not> on_tape s \<longrightarrow>
      step np p (s\<lparr>mem := (mem s)[j := v]\<rparr>)
        = map_sum (apsnd (\<lambda>t. t\<lparr>mem := (mem t)[j := v]\<rparr>)) (\<lambda>t. t\<lparr>mem := (mem t)[j := v]\<rparr>)
            (step np p s))"
proof -
  have mv: "code p ! ip s = 62 \<longrightarrow>
      step np p s = Inr (s\<lparr>dp := dp s + 1, ip := ip s + 1, icnt := icnt s + 1\<rparr>)"
    "code p ! ip s = 60 \<longrightarrow>
      step np p s = Inr (s\<lparr>dp := dp s - 1, ip := ip s + 1, icnt := icnt s + 1\<rparr>)"
    by (simp_all add: step_def exec_instr_def)
  have off: "\<not> on_tape s \<and> code p ! ip s \<in> {43, 45, 91, 93, 46} \<longrightarrow>
      step np p s = Inl (IndexError, s)"
    using step_off_tape[of p s np] by (simp add: np_index_cell)
  have offi: "\<not> on_tape s \<and> code p ! ip s = 44 \<longrightarrow>
      step np p s = Inl (IndexError, s\<lparr>inp := snd (read1 (inp s))\<rparr>)"
    using step_input[of p s np] by (simp add: np_index_cell)
  have on: "on_tape s \<longrightarrow>
      cell s < length (mem s)
      \<and> (int (cell s) = dp s \<or> int (cell s) = dp s + int (length (mem s)))
      \<and> (code p ! ip s = 43 \<longrightarrow>
            step np p s = Inr (s\<lparr>mem := (mem s)[cell s := mem s ! cell s + 1],
                                  ip := ip s + 1, icnt := icnt s + 1\<rparr>))
      \<and> (code p ! ip s = 45 \<longrightarrow>
            step np p s = Inr (s\<lparr>mem := (mem s)[cell s := mem s ! cell s - 1],
                                  ip := ip s + 1, icnt := icnt s + 1\<rparr>))
      \<and> (code p ! ip s = 46 \<longrightarrow>
            step np p s = Inr (s\<lparr>buf_out := buf_out s @ [mem s ! cell s],
                                  ip := ip s + 1, icnt := icnt s + 1\<rparr>))
      \<and> (code p ! ip s = 91 \<longrightarrow>
            step np p s =
              (if mem s ! cell s \<noteq> 0 then Inr (s\<lparr>ip := ip s + 1, icnt := icnt s + 1\<rparr>)
               else (case jumps p (ip s) of
                       None \<Rightarrow> Inl (KeyError (ip s), s)
                     | Some k \<Rightarrow> Inr (s\<lparr>ip := k + 1, icnt := icnt s + 1\<rparr>))))
      \<and> (code p ! ip s = 93 \<longrightarrow>
            step np p s =
              (if mem s ! cell s = 0 then Inr (s\<lparr>ip := ip s + 1, icnt := icnt s + 1\<rparr>)
               else (case jumps p (ip s) of
                       None \<Rightarrow> Inl (KeyError (ip s), s)
                     | Some k \<Rightarrow> Inr (s\<lparr>ip := k + 1, icnt := icnt s + 1\<rparr>))))
      \<and> (code p ! ip s = 44 \<longrightarrow>
            step np p s =
              (case stored np (fst (read1 (inp s))) of
                 None \<Rightarrow> Inl (OverflowError, s\<lparr>inp := snd (read1 (inp s))\<rparr>)
               | Some w \<Rightarrow>
                   Inr (s\<lparr>mem := (mem s)[cell s := w], inp := snd (read1 (inp s)),
                          ip := ip s + 1, icnt := icnt s + 1\<rparr>)))"
  proof
    assume o: "on_tape s"
    then have i: "np_index (length (mem s)) (dp s) = Some (cell s)"
      by (simp add: np_index_cell)
    have c1: "cell s < length (mem s)" using o by (rule cell_less)
    have c2: "int (cell s) = dp s \<or> int (cell s) = dp s + int (length (mem s))"
      using o by (auto simp: cell_def on_tape_def)
    have a: "code p ! ip s = 43 \<longrightarrow>
            step np p s = Inr (s\<lparr>mem := (mem s)[cell s := mem s ! cell s + 1],
                                  ip := ip s + 1, icnt := icnt s + 1\<rparr>)"
      using step_plus[of p s "cell s" np] i by simp
    have b: "code p ! ip s = 45 \<longrightarrow>
            step np p s = Inr (s\<lparr>mem := (mem s)[cell s := mem s ! cell s - 1],
                                  ip := ip s + 1, icnt := icnt s + 1\<rparr>)"
      using step_minus[of p s "cell s" np] i by simp
    have c: "code p ! ip s = 46 \<longrightarrow>
            step np p s = Inr (s\<lparr>buf_out := buf_out s @ [mem s ! cell s],
                                  ip := ip s + 1, icnt := icnt s + 1\<rparr>)"
      using step_output[of p s "cell s" np] i by simp
    have d: "code p ! ip s = 91 \<longrightarrow>
            step np p s =
              (if mem s ! cell s \<noteq> 0 then Inr (s\<lparr>ip := ip s + 1, icnt := icnt s + 1\<rparr>)
               else (case jumps p (ip s) of
                       None \<Rightarrow> Inl (KeyError (ip s), s)
                     | Some k \<Rightarrow> Inr (s\<lparr>ip := k + 1, icnt := icnt s + 1\<rparr>)))"
      using i by (simp add: step_def exec_instr_def split: option.splits)
    have e: "code p ! ip s = 93 \<longrightarrow>
            step np p s =
              (if mem s ! cell s = 0 then Inr (s\<lparr>ip := ip s + 1, icnt := icnt s + 1\<rparr>)
               else (case jumps p (ip s) of
                       None \<Rightarrow> Inl (KeyError (ip s), s)
                     | Some k \<Rightarrow> Inr (s\<lparr>ip := k + 1, icnt := icnt s + 1\<rparr>)))"
      using i by (simp add: step_def exec_instr_def split: option.splits)
    have f: "code p ! ip s = 44 \<longrightarrow>
            step np p s =
              (case stored np (fst (read1 (inp s))) of
                 None \<Rightarrow> Inl (OverflowError, s\<lparr>inp := snd (read1 (inp s))\<rparr>)
               | Some w \<Rightarrow>
                   Inr (s\<lparr>mem := (mem s)[cell s := w], inp := snd (read1 (inp s)),
                          ip := ip s + 1, icnt := icnt s + 1\<rparr>))"
      using step_input[of p s np] i by simp
    from c1 c2 a b c d e f show "cell s < length (mem s)
      \<and> (int (cell s) = dp s \<or> int (cell s) = dp s + int (length (mem s)))
      \<and> (code p ! ip s = 43 \<longrightarrow>
            step np p s = Inr (s\<lparr>mem := (mem s)[cell s := mem s ! cell s + 1],
                                  ip := ip s + 1, icnt := icnt s + 1\<rparr>))
      \<and> (code p ! ip s = 45 \<longrightarrow>
            step np p s = Inr (s\<lparr>mem := (mem s)[cell s := mem s ! cell s - 1],
                                  ip := ip s + 1, icnt := icnt s + 1\<rparr>))
      \<and> (code p ! ip s = 46 \<longrightarrow>
            step np p s = Inr (s\<lparr>buf_out := buf_out s @ [mem s ! cell s],
                                  ip := ip s + 1, icnt := icnt s + 1\<rparr>))
      \<and> (code p ! ip s = 91 \<longrightarrow>
            step np p s =
              (if mem s ! cell s \<noteq> 0 then Inr (s\<lparr>ip := ip s + 1, icnt := icnt s + 1\<rparr>)
               else (case jumps p (ip s) of
                       None \<Rightarrow> Inl (KeyError (ip s), s)
                     | Some k \<Rightarrow> Inr (s\<lparr>ip := k + 1, icnt := icnt s + 1\<rparr>))))
      \<and> (code p ! ip s = 93 \<longrightarrow>
            step np p s =
              (if mem s ! cell s = 0 then Inr (s\<lparr>ip := ip s + 1, icnt := icnt s + 1\<rparr>)
               else (case jumps p (ip s) of
                       None \<Rightarrow> Inl (KeyError (ip s), s)
                     | Some k \<Rightarrow> Inr (s\<lparr>ip := k + 1, icnt := icnt s + 1\<rparr>))))
      \<and> (code p ! ip s = 44 \<longrightarrow>
            step np p s =
              (case stored np (fst (read1 (inp s))) of
                 None \<Rightarrow> Inl (OverflowError, s\<lparr>inp := snd (read1 (inp s))\<rparr>)
               | Some w \<Rightarrow>
                   Inr (s\<lparr>mem := (mem s)[cell s := w], inp := snd (read1 (inp s)),
                          ip := ip s + 1, icnt := icnt s + 1\<rparr>)))"
      by (intro conjI)
  qed
  have fr: "j \<noteq> cell s \<or> \<not> on_tape s \<longrightarrow>
      step np p (s\<lparr>mem := (mem s)[j := v]\<rparr>)
        = map_sum (apsnd (\<lambda>t. t\<lparr>mem := (mem t)[j := v]\<rparr>)) (\<lambda>t. t\<lparr>mem := (mem t)[j := v]\<rparr>)
            (step np p s)"
    using step_other_cell[of j s np p v] by blast
  from mv off offi on fr show ?thesis by (intro conjI)
qed

theorem data_pointer_policy_witness:
  "step Wrapping \<lparr>code = [60, 43, 62], jumps = Map.empty\<rparr>
        \<lparr>icnt = 0, mem = [0, 0, 0], buf_out = [], ip = 0, dp = - 3, inp = [], out = []\<rparr>
     = Inr \<lparr>icnt = 1, mem = [0, 0, 0], buf_out = [], ip = 1, dp = - 4, inp = [], out = []\<rparr>
   \<and> step Wrapping \<lparr>code = [60, 43, 62], jumps = Map.empty\<rparr>
        \<lparr>icnt = 0, mem = [0, 0, 0], buf_out = [], ip = 2, dp = 2, inp = [], out = []\<rparr>
     = Inr \<lparr>icnt = 1, mem = [0, 0, 0], buf_out = [], ip = 3, dp = 3, inp = [], out = []\<rparr>
   \<and> \<not> on_tape \<lparr>icnt = 0, mem = [0, 0, 0], buf_out = [], ip = 1, dp = 3, inp = [], out = []\<rparr>
   \<and> step Wrapping \<lparr>code = [60, 43, 62], jumps = Map.empty\<rparr>
        \<lparr>icnt = 0, mem = [0, 0, 0], buf_out = [], ip = 1, dp = 3, inp = [], out = []\<rparr>
     = Inl (IndexError,
            \<lparr>icnt = 0, mem = [0, 0, 0], buf_out = [], ip = 1, dp = 3, inp = [], out = []\<rparr>)
   \<and> on_tape \<lparr>icnt = 0, mem = [0, 0, 0], buf_out = [], ip = 1, dp = - 1, inp = [], out = []\<rparr>
   \<and> cell \<lparr>icnt = 0, mem = [0, 0, 0], buf_out = [], ip = 1, dp = - 1, inp = [], out = []\<rparr> = 2
   \<and> step Wrapping \<lparr>code = [60, 43, 62], jumps = Map.empty\<rparr>
        \<lparr>icnt = 0, mem = [0, 0, 0], buf_out = [], ip = 1, dp = - 1, inp = [], out = []\<rparr>
     = Inr \<lparr>icnt = 1, mem = [0, 0, 1], buf_out = [], ip = 2, dp = - 1, inp = [], out = []\<rparr>
   \<and> step Wrapping \<lparr>code = [60, 43, 62], jumps = Map.empty\<rparr>
        \<lparr>icnt = 0, mem = [0, 5, 0], buf_out = [], ip = 1, dp = - 1, inp = [], out = []\<rparr>
     = Inr \<lparr>icnt = 1, mem = [0, 5, 1], buf_out = [], ip = 2, dp = - 1, inp = [], out = []\<rparr>"
  using data_pointer_policy[of "\<lparr>code = [60, 43, 62], jumps = Map.empty\<rparr>"
      "\<lparr>icnt = 0, mem = [0, 0, 0], buf_out = [], ip = 0, dp = - 3, inp = [], out = []\<rparr>" Wrapping]
    data_pointer_policy[of "\<lparr>code = [60, 43, 62], jumps = Map.empty\<rparr>"
      "\<lparr>icnt = 0, mem = [0, 0, 0], buf_out = [], ip = 2, dp = 2, inp = [], out = []\<rparr>" Wrapping]
    data_pointer_policy[of "\<lparr>code = [60, 43, 62], jumps = Map.empty\<rparr>"
      "\<lparr>icnt = 0, mem = [0, 0, 0], buf_out = [], ip = 1, dp = 3, inp = [], out = []\<rparr>" Wrapping]
    data_pointer_policy[of "\<lparr>code = [60, 43, 62], jumps = Map.empty\<rparr>"
      "\<lparr>icnt = 0, mem = [0, 0, 0], buf_out = [], ip = 1, dp = - 1, inp = [], out = []\<rparr>" Wrapping
      1 5]
  by (simp add: on_tape_def cell_def)

subsection \<open>The input operator\<close>

text \<open>
  The claim C4 as written fails: after \<open>>\<close> on a tape of one cell the data pointer is no
  index of the tape, and the input operator at the end of the input fails the run with
  \<open>IndexError\<close>, raised by the store of the handler.
\<close>

theorem input_failure_fails_run_counterexample:
  "run_loop Wrapping (projr (bf_init [62, 44])) (- 1)
      \<lparr>icnt = 0, mem = [0], buf_out = [], ip = 0, dp = 0, inp = [], out = []\<rparr>
   = Some (Inl (IndexError,
        \<lparr>icnt = 1, mem = [0], buf_out = [], ip = 1, dp = 1, inp = [], out = []\<rparr>))"
  by (simp add: run_loop.simps bf_init_def strip_def operators_def discover.simps Let_def c_len_def
      step_def exec_instr_def np_index_def np_setitem_def)

text \<open>
  Claim C4, as the code has it.  The input operator reads one character.  When the data
  pointer is an index of the tape and the array store reduces a value to its low eight
  bits, the step succeeds: a character read is stored modulo 256, and on end of input or
  a failing read the cell becomes 255; the run goes on with the next operator.  When the
  data pointer is no index of the tape the step fails the run with \<open>IndexError\<close>, whether
  the read succeeded or not.
\<close>

theorem input_operator:
  assumes "code p ! ip s = 44"
  shows "(on_tape s \<longrightarrow>
            step Wrapping p s =
              Inr (s\<lparr>mem := (mem s)[cell s := (case fst (read1 (inp s)) of
                                                Some c \<Rightarrow> word_of_nat (c mod 256)
                                              | None \<Rightarrow> 255)],
                     inp := snd (read1 (inp s)), ip := ip s + 1, icnt := icnt s + 1\<rparr>))
       \<and> (\<not> on_tape s \<longrightarrow>
            step np p s = Inl (IndexError, s\<lparr>inp := snd (read1 (inp s))\<rparr>))"
proof -
  have m: "(word_of_nat (c mod 256) :: 8 word) = word_of_nat c" for c
    by (simp add: word_of_nat_eq_iff take_bit_eq_mod)
  show ?thesis
    using step_input[OF assms, of Wrapping] step_input[OF assms, of np]
    by (auto simp: np_index_cell stored_def m split: option.splits)
qed

theorem input_operator_witness:
  "step Wrapping \<lparr>code = [44], jumps = Map.empty\<rparr>
        \<lparr>icnt = 0, mem = [7, 7], buf_out = [], ip = 0, dp = 1, inp = [Failed, Got 321], out = []\<rparr>
     = Inr \<lparr>icnt = 1, mem = [7, 255], buf_out = [], ip = 1, dp = 1, inp = [Got 321], out = []\<rparr>
   \<and> step Wrapping \<lparr>code = [44], jumps = Map.empty\<rparr>
        \<lparr>icnt = 0, mem = [7, 7], buf_out = [], ip = 0, dp = 1, inp = [Got 321], out = []\<rparr>
     = Inr \<lparr>icnt = 1, mem = [7, 65], buf_out = [], ip = 1, dp = 1, inp = [], out = []\<rparr>
   \<and> step Wrapping \<lparr>code = [44], jumps = Map.empty\<rparr>
        \<lparr>icnt = 0, mem = [7, 7], buf_out = [], ip = 0, dp = - 2, inp = [], out = []\<rparr>
     = Inr \<lparr>icnt = 1, mem = [255, 7], buf_out = [], ip = 1, dp = - 2, inp = [], out = []\<rparr>
   \<and> step Checked \<lparr>code = [44], jumps = Map.empty\<rparr>
        \<lparr>icnt = 0, mem = [7, 7], buf_out = [], ip = 0, dp = 2, inp = [Got 65], out = []\<rparr>
     = Inl (IndexError,
            \<lparr>icnt = 0, mem = [7, 7], buf_out = [], ip = 0, dp = 2, inp = [], out = []\<rparr>)"
  using input_operator[of "\<lparr>code = [44], jumps = Map.empty\<rparr>"
      "\<lparr>icnt = 0, mem = [7, 7], buf_out = [], ip = 0, dp = 1, inp = [Failed, Got 321], out = []\<rparr>"]
    input_operator[of "\<lparr>code = [44], jumps = Map.empty\<rparr>"
      "\<lparr>icnt = 0, mem = [7, 7], buf_out = [], ip = 0, dp = 1, inp = [Got 321], out = []\<rparr>"]
    input_operator[of "\<lparr>code = [44], jumps = Map.empty\<rparr>"
      "\<lparr>icnt = 0, mem = [7, 7], buf_out = [], ip = 0, dp = - 2, inp = [], out = []\<rparr>"]
    input_operator[of "\<lparr>code = [44], jumps = Map.empty\<rparr>"
      "\<lparr>icnt = 0, mem = [7, 7], buf_out = [], ip = 0, dp = 2, inp = [Got 65], out = []\<rparr>" Checked]
  by (simp add: on_tape_def cell_def)

text \<open>
  Under the checked conversion the same step stores a character up to 255 and raises
  \<open>OverflowError\<close> for any other character, at the end of the input and after a failing
  read, since the handler's \<open>-1\<close> does not fit either.
\<close>

lemma input_operator_checked:
  assumes "code p ! ip s = 44" and "on_tape s"
  shows "step Checked p s =
     (case fst (read1 (inp s)) of
        Some c \<Rightarrow>
          if c \<le> 255
          then Inr (s\<lparr>mem := (mem s)[cell s := word_of_nat c], inp := snd (read1 (inp s)),
                      ip := ip s + 1, icnt := icnt s + 1\<rparr>)
          else Inl (OverflowError, s\<lparr>inp := snd (read1 (inp s))\<rparr>)
      | None \<Rightarrow> Inl (OverflowError, s\<lparr>inp := snd (read1 (inp s))\<rparr>))"
  using step_input[OF assms(1), of Checked] assms(2)
  by (auto simp: np_index_cell stored_def split: option.splits)

subsection \<open>Cell arithmetic\<close>

lemma run_increments:
  "ip s + m \<le> c_len p \<Longrightarrow> (\<forall>k. ip s \<le> k \<and> k < ip s + m \<longrightarrow> code p ! k = 43) \<Longrightarrow>
   np_index (length (mem s)) (dp s) = Some i \<Longrightarrow>
   run_loop np p (- 1) s =
   run_loop np p (- 1)
     (s\<lparr>mem := (mem s)[i := mem s ! i + of_nat m], ip := ip s + m, icnt := icnt s + m\<rparr>)"
proof (induction m arbitrary: s)
  case 0
  then show ?case by simp
next
  case (Suc m)
  let ?s' = "s\<lparr>mem := (mem s)[i := mem s ! i + 1], ip := ip s + 1, icnt := icnt s + 1\<rparr>"
  have i: "i < length (mem s)" using Suc.prems(3) by (rule np_index_less)
  have "code p ! ip s = 43" using Suc.prems(2) by simp
  then have st: "step np p s = Inr ?s'" using Suc.prems(3) by (rule step_plus)
  have "run_loop np p (- 1) s = run_loop np p (- 1) ?s'"
    using st Suc.prems(1) by (subst run_loop.simps) simp
  also have "\<dots> = run_loop np p (- 1) (?s'\<lparr>mem := (mem ?s')[i := mem ?s' ! i + of_nat m],
       ip := ip ?s' + m, icnt := icnt ?s' + m\<rparr>)"
    using Suc.prems by (intro Suc.IH) auto
  finally show ?case using i by (simp add: add.assoc)
qed

text \<open>
  Claim C9.  From any state whose data pointer indexes a cell, whatever that cell holds,
  the program of 256 increments runs to its end and leaves the whole tape as it was; a
  decrement of a cell holding 0 leaves 255 in it.
\<close>

theorem cell_arithmetic_wraps:
  assumes "np_index (length (mem s)) (dp s) = Some i"
  shows "(code p = replicate 256 43 \<and> ip s = 0 \<longrightarrow>
            run_loop np p (- 1) s = Some (Inr (s\<lparr>ip := 256, icnt := icnt s + 256\<rparr>)))
       \<and> (code p ! ip s = 45 \<and> mem s ! i = 0 \<longrightarrow>
            step np p s = Inr (s\<lparr>mem := (mem s)[i := 255], ip := ip s + 1, icnt := icnt s + 1\<rparr>))"
proof (intro conjI impI)
  assume a: "code p = replicate 256 43 \<and> ip s = 0"
  let ?s' = "s\<lparr>mem := (mem s)[i := mem s ! i + of_nat 256], ip := ip s + 256, icnt := icnt s + 256\<rparr>"
  have "run_loop np p (- 1) s = run_loop np p (- 1) ?s'"
    using a assms by (intro run_increments) (auto simp: c_len_def)
  moreover have z: "(256 :: 8 word) = 0" by simp
  have "?s' = s\<lparr>ip := 256, icnt := icnt s + 256\<rparr>" using a by (simp add: z)
  moreover have "run_loop np p (- 1) (s\<lparr>ip := 256, icnt := icnt s + 256\<rparr>)
      = Some (Inr (s\<lparr>ip := 256, icnt := icnt s + 256\<rparr>))"
    using a by (subst run_loop.simps) (simp add: c_len_def)
  ultimately show "run_loop np p (- 1) s = Some (Inr (s\<lparr>ip := 256, icnt := icnt s + 256\<rparr>))"
    by simp
next
  assume "code p ! ip s = 45 \<and> mem s ! i = 0"
  then show "step np p s = Inr (s\<lparr>mem := (mem s)[i := 255], ip := ip s + 1, icnt := icnt s + 1\<rparr>)"
    using step_minus[of p s i np] assms unfolding word8_255 by simp
qed

theorem cell_arithmetic_wraps_witness:
  "run_loop Wrapping \<lparr>code = replicate 256 43, jumps = Map.empty\<rparr> (- 1)
      \<lparr>icnt = 0, mem = [200, 9], buf_out = [], ip = 0, dp = 0, inp = [], out = []\<rparr>
     = Some (Inr \<lparr>icnt = 256, mem = [200, 9], buf_out = [], ip = 256, dp = 0, inp = [], out = []\<rparr>)
   \<and> step Wrapping \<lparr>code = [45], jumps = Map.empty\<rparr>
      \<lparr>icnt = 0, mem = [0, 9], buf_out = [], ip = 0, dp = 0, inp = [], out = []\<rparr>
     = Inr \<lparr>icnt = 1, mem = [255, 9], buf_out = [], ip = 1, dp = 0, inp = [], out = []\<rparr>"
  using cell_arithmetic_wraps[of
      "\<lparr>icnt = 0, mem = [200, 9], buf_out = [], ip = 0, dp = 0, inp = [], out = []\<rparr>" 0
      "\<lparr>code = replicate 256 43, jumps = Map.empty\<rparr>" Wrapping]
    cell_arithmetic_wraps[of
      "\<lparr>icnt = 0, mem = [0, 9], buf_out = [], ip = 0, dp = 0, inp = [], out = []\<rparr>" 0
      "\<lparr>code = [45], jumps = Map.empty\<rparr>" Wrapping]
  by (simp add: np_index_def)

subsection \<open>The output\<close>

lemma step_out:
  "step np p (s\<lparr>out := w\<rparr>) = with_out w (step np p s)"
proof (cases "code p ! ip s = 44")
  case True
  have "code p ! ip (s\<lparr>out := w\<rparr>) = 44" using True by simp
  from step_input[OF this] step_input[OF True] show ?thesis
    by (auto simp: with_out_def split: option.splits)
next
  case False
  then show ?thesis
    by (auto simp: with_out_def step_def exec_instr_def split: option.splits)
qed

lemma run_loop_out_Some:
  "run_loop np p b s = Some r \<Longrightarrow> run_loop np p b (s\<lparr>out := w\<rparr>) = Some (with_out w r)"
proof (induction arbitrary: w rule: run_loop.raw_induct[rotated 1, consumes 1])
  case (1 f np p b s r)
  show ?case
  proof (cases "ip s < c_len p")
    case False
    with 1(2) show ?thesis by (subst run_loop.simps) (auto simp: with_out_def)
  next
    case True
    show ?thesis
    proof (cases "int (icnt s) > b \<and> b \<ge> 0")
      case True
      with 1(2) \<open>ip s < c_len p\<close> show ?thesis
        by (subst run_loop.simps) (auto simp: with_out_def)
    next
      case False
      show ?thesis
      proof (cases "step np p s")
        case (Inl es)
        with 1(2) False \<open>ip s < c_len p\<close> show ?thesis
          by (subst run_loop.simps) (auto simp: step_out with_out_def)
      next
        case (Inr s')
        with 1(2) False \<open>ip s < c_len p\<close> have "f np p b s' = Some r" by auto
        then have "run_loop np p b (s'\<lparr>out := w\<rparr>) = Some (with_out w r)" by (rule 1(1))
        with Inr False \<open>ip s < c_len p\<close> show ?thesis
          by (subst run_loop.simps) (auto simp: step_out with_out_def)
      qed
    qed
  qed
qed

lemma run_loop_out:
  "run_loop np p b (s\<lparr>out := w\<rparr>) = map_option (with_out w) (run_loop np p b s)"
proof (cases "run_loop np p b s")
  case (Some r)
  then show ?thesis by (simp add: run_loop_out_Some)
next
  case None
  have "run_loop np p b (s\<lparr>out := w\<rparr>) = None"
  proof (rule ccontr)
    assume "run_loop np p b (s\<lparr>out := w\<rparr>) \<noteq> None"
    then obtain r where "run_loop np p b (s\<lparr>out := w\<rparr>) = Some r" by auto
    from run_loop_out_Some[OF this, of "out s"] None show False by simp
  qed
  with None show ?thesis by simp
qed

lemma run_loop_keeps_out:
  assumes "run_loop np p b s = Some r"
  shows "with_out (out s) r = r"
  using run_loop_out_Some[OF assms, of "out s"] assms by simp

lemma run_loop_out_Inl:
  assumes "run_loop np p b s = Some (Inl (e, t))"
  shows "out t = out s"
proof -
  from run_loop_keeps_out[OF assms] have "t\<lparr>out := out s\<rparr> = t"
    by (simp add: with_out_def)
  then have "out (t\<lparr>out := out s\<rparr>) = out t" by simp
  then show ?thesis by simp
qed

lemma run_loop_out_Inr:
  assumes "run_loop np p b s = Some (Inr t)"
  shows "out t = out s"
proof -
  from run_loop_keeps_out[OF assms] have "t\<lparr>out := out s\<rparr> = t"
    by (simp add: with_out_def)
  then have "out (t\<lparr>out := out s\<rparr>) = out t" by simp
  then show ?thesis by simp
qed

lemma unat_m1: "unat (- 1 :: 8 word) = 255"
proof -
  have "unat (255 :: 8 word) = 255" by simp
  then show ?thesis unfolding word8_255 .
qed

lemma utf8_ascii: "\<forall>c \<in> set bs. unat c < 128 \<Longrightarrow> utf8_decode bs = Some (map unat bs)"
  by (induction bs) auto

lemma step_buf:
  assumes "step np p s = Inr s'"
  shows "out s' = out s \<and> buf_out s' =
     (if code p ! ip s = 46 then buf_out s @ [mem s ! the (np_index (length (mem s)) (dp s))]
      else buf_out s)"
proof (cases "code p ! ip s = 44")
  case True
  from assms show ?thesis unfolding step_input[OF True] using True
    by (auto split: option.splits)
next
  case False
  with assms show ?thesis
    by (auto simp: step_def exec_instr_def split: option.splits if_splits)
qed

text \<open>
  Claim C8, as the code has it.  No step of the loop writes to the output: the output
  operator appends the current cell to the buffer and nothing else changes the buffer.  A
  run that raises in the loop writes nothing.  When the loop has ended, the buffer is
  decoded as UTF-8: if that fails the run raises \<open>UnicodeDecodeError\<close> and writes nothing,
  otherwise the decoded text is written with one call of \<open>write\<close>.  For bytes below 128
  the decoded text is the bytes themselves.
\<close>

theorem output_flush:
  "(step np p s = Inr s' \<longrightarrow>
      out s' = out s
      \<and> buf_out s' =
          (if code p ! ip s = 46 then buf_out s @ [mem s ! the (np_index (length (mem s)) (dp s))]
           else buf_out s))
 \<and> (run_loop np (prog bf) b (init_state bf n) = Some (Inl (e, t)) \<longrightarrow>
      out t = outputs bf \<and> run np bf n b = Some (Inl e, bf\<lparr>input := inp t\<rparr>))
 \<and> (run_loop np (prog bf) b (init_state bf n) = Some (Inr t) \<longrightarrow>
      out t = outputs bf
      \<and> run np bf n b =
          (case utf8_decode (buf_out t) of
             None \<Rightarrow> Some (Inl UnicodeDecodeError, bf\<lparr>input := inp t\<rparr>)
           | Some txt \<Rightarrow>
               Some (Inr (if return_output bf then Some (concat (outputs bf @ [txt])) else None),
                     bf\<lparr>input := inp t, outputs := outputs bf @ [txt]\<rparr>)))
 \<and> ((\<forall>c \<in> set bs. unat c < 128) \<longrightarrow> utf8_decode bs = Some (map unat bs))"
proof (intro conjI impI)
  assume "step np p s = Inr s'"
  from step_buf[OF this]
  show "out s' = out s"
    and "buf_out s' =
          (if code p ! ip s = 46 then buf_out s @ [mem s ! the (np_index (length (mem s)) (dp s))]
           else buf_out s)"
    by simp_all
next
  assume a: "run_loop np (prog bf) b (init_state bf n) = Some (Inl (e, t))"
  from run_loop_out_Inl[OF a] show o: "out t = outputs bf"
    by (simp add: init_state_def)
  show "run np bf n b = Some (Inl e, bf\<lparr>input := inp t\<rparr>)"
    using a o by (simp add: run_def)
next
  assume a: "run_loop np (prog bf) b (init_state bf n) = Some (Inr t)"
  from run_loop_out_Inr[OF a] show o: "out t = outputs bf"
    by (simp add: init_state_def)
  show "run np bf n b =
          (case utf8_decode (buf_out t) of
             None \<Rightarrow> Some (Inl UnicodeDecodeError, bf\<lparr>input := inp t\<rparr>)
           | Some txt \<Rightarrow>
               Some (Inr (if return_output bf then Some (concat (outputs bf @ [txt])) else None),
                     bf\<lparr>input := inp t, outputs := outputs bf @ [txt]\<rparr>))"
    using a o by (simp add: run_def split: option.splits)
next
  assume "\<forall>c \<in> set bs. unat c < 128"
  then show "utf8_decode bs = Some (map unat bs)" by (rule utf8_ascii)
qed

theorem output_flush_witness:
  "run_loop Wrapping \<lparr>code = [44, 46], jumps = Map.empty\<rparr> (- 1)
      (init_state \<lparr>input = [Got 65], outputs = [[7]], return_output = False,
                   prog = \<lparr>code = [44, 46], jumps = Map.empty\<rparr>\<rparr> 1)
     = Some (Inr \<lparr>icnt = 2, mem = [65], buf_out = [65], ip = 2, dp = 0, inp = [], out = [[7]]\<rparr>)
   \<and> run Wrapping \<lparr>input = [Got 65], outputs = [[7]], return_output = False,
           prog = \<lparr>code = [44, 46], jumps = Map.empty\<rparr>\<rparr> 1 (- 1)
     = Some (Inr None, \<lparr>input = [], outputs = [[7], [65]], return_output = False,
                        prog = \<lparr>code = [44, 46], jumps = Map.empty\<rparr>\<rparr>)"
  using output_flush[where bf = "\<lparr>input = [Got 65], outputs = [[7]], return_output = False,
        prog = \<lparr>code = [44, 46], jumps = Map.empty\<rparr>\<rparr>" and b = "- 1" and n = 1
      and np = Wrapping
      and t = "\<lparr>icnt = 2, mem = [65], buf_out = [65], ip = 2, dp = 0, inp = [], out = [[7]]\<rparr>"]
  by (simp add: run_loop.simps init_state_def c_len_def step_def exec_instr_def np_index_def
      np_setitem_def)

text \<open>
  The claim as written fails: \<open>-.\<close> ends its loop with the single byte 255 in the buffer,
  which is no UTF-8 text; the run raises and the output receives nothing.
\<close>

theorem output_flush_counterexample:
  "run_loop Wrapping (prog (projr (new_brainfuck [45, 46] [] None))) (- 1)
      (init_state (projr (new_brainfuck [45, 46] [] None)) 1)
     = Some (Inr \<lparr>icnt = 2, mem = [255], buf_out = [255], ip = 2, dp = 0, inp = [], out = []\<rparr>)
   \<and> run Wrapping (projr (new_brainfuck [45, 46] [] None)) 1 (- 1)
     = Some (Inl UnicodeDecodeError, projr (new_brainfuck [45, 46] [] None))"
  by (simp add: run_def run_loop.simps init_state_def c_len_def step_def exec_instr_def np_index_def
      new_brainfuck_def bf_init_def strip_def operators_def discover.simps Let_def unat_m1)

subsection \<open>Determinism\<close>

text \<open>
  The claim C10 as written fails for the value that \<open>run\<close> returns: the object made
  from \<open>+.\<close> with no output given returns the text of the one byte 1 from its first run
  and, with the same source text, input, tape size and budget, that text twice from its
  second run, because \<open>run\<close> reads back everything its output stream holds.
\<close>

theorem second_run_returns_more_counterexample:
  "new_brainfuck [43, 46] [] None
     = Inr \<lparr>input = [], outputs = [], return_output = True,
            prog = \<lparr>code = [43, 46], jumps = Map.empty\<rparr>\<rparr>
   \<and> run Wrapping \<lparr>input = [], outputs = [], return_output = True,
                    prog = \<lparr>code = [43, 46], jumps = Map.empty\<rparr>\<rparr> 1 (- 1)
     = Some (Inr (Some [1]),
             \<lparr>input = [], outputs = [[1]], return_output = True,
              prog = \<lparr>code = [43, 46], jumps = Map.empty\<rparr>\<rparr>)
   \<and> run Wrapping \<lparr>input = [], outputs = [[1]], return_output = True,
                    prog = \<lparr>code = [43, 46], jumps = Map.empty\<rparr>\<rparr> 1 (- 1)
     = Some (Inr (Some [1, 1]),
             \<lparr>input = [], outputs = [[1], [1]], return_output = True,
              prog = \<lparr>code = [43, 46], jumps = Map.empty\<rparr>\<rparr>)"
  by (simp add: run_def run_loop.simps init_state_def c_len_def step_def exec_instr_def np_index_def
      new_brainfuck_def bf_init_def strip_def operators_def discover.simps Let_def)

text \<open>
  Claim C10, as the code has it.  Take two objects with the same program and the same
  input left in their input streams, whatever their output streams are and hold (two
  fresh objects from the same source text and input, or one object before and after
  runs that read no input), and run them with the same tape size and budget.  Then
  either neither run returns, or both do: they raise the same error or none, write the
  same text to their outputs and leave the same input.  The value returned when the
  object has made its output itself is not the text of this run alone but the whole
  content of that output: everything written to it before, followed by the text of this
  run.
\<close>

theorem deterministic_run:
  assumes "prog bf1 = prog bf2" and "input bf1 = input bf2"
  shows "map_option (effect bf1) (run np bf1 n b) = map_option (effect bf2) (run np bf2 n b)
       \<and> (run np bf1 n b = Some (Inr v, bf') \<longrightarrow>
            (\<exists>txt. outputs bf' = outputs bf1 @ [txt]
                  \<and> effect bf1 (Inr v, bf') = (Inr (), [txt], input bf')
                  \<and> v = (if return_output bf1 then Some (concat (outputs bf1) @ txt)
                         else None)))"
proof
  have s: "init_state bf2 n = (init_state bf1 n)\<lparr>out := outputs bf2\<rparr>"
    by (simp add: init_state_def assms)
  have l: "run_loop np (prog bf2) b (init_state bf2 n)
      = map_option (with_out (outputs bf2)) (run_loop np (prog bf1) b (init_state bf1 n))"
    unfolding s assms(1)[symmetric] by (rule run_loop_out)
  show "map_option (effect bf1) (run np bf1 n b) = map_option (effect bf2) (run np bf2 n b)"
  proof (cases "run_loop np (prog bf1) b (init_state bf1 n)")
    case None
    with l show ?thesis by (simp add: run_def)
  next
    case (Some r)
    show ?thesis
    proof (cases r)
      case (Inl es)
      obtain e t where es: "es = (e, t)" by (cases es)
      from Some Inl es have "out t = outputs bf1"
        using run_loop_out_Inl[of np "prog bf1" b "init_state bf1 n" e t]
        by (simp add: init_state_def)
      with l Some Inl es show ?thesis
        by (simp add: run_def with_out_def effect_def)
    next
      case (Inr t)
      from Some Inr have "out t = outputs bf1"
        using run_loop_out_Inr[of np "prog bf1" b "init_state bf1 n" t]
        by (simp add: init_state_def)
      with l Some Inr show ?thesis
        by (simp add: run_def with_out_def effect_def split: option.splits)
    qed
  qed
  show "run np bf1 n b = Some (Inr v, bf') \<longrightarrow>
            (\<exists>txt. outputs bf' = outputs bf1 @ [txt]
                  \<and> effect bf1 (Inr v, bf') = (Inr (), [txt], input bf')
                  \<and> v = (if return_output bf1 then Some (concat (outputs bf1) @ txt)
                         else None))"
  proof
    assume r: "run np bf1 n b = Some (Inr v, bf')"
    then obtain t tx where t: "run_loop np (prog bf1) b (init_state bf1 n) = Some (Inr t)"
      and d: "utf8_decode (buf_out t) = Some tx"
      by (auto simp: run_def split: option.splits sum.splits)
    from run_loop_out_Inr[OF t] have o: "out t = outputs bf1"
      by (simp add: init_state_def)
    from r t d o have "outputs bf' = outputs bf1 @ [tx]"
      and "v = (if return_output bf1 then Some (concat (outputs bf1) @ tx) else None)"
      by (auto simp: run_def)
    then show "\<exists>txt. outputs bf' = outputs bf1 @ [txt]
                  \<and> effect bf1 (Inr v, bf') = (Inr (), [txt], input bf')
                  \<and> v = (if return_output bf1 then Some (concat (outputs bf1) @ txt)
                         else None)"
      by (intro exI[of _ tx]) (simp add: effect_def)
  qed
qed

theorem deterministic_run_witness:
  "map_option (effect \<lparr>input = [Got 65], outputs = [], return_output = True,
                        prog = \<lparr>code = [44, 46], jumps = Map.empty\<rparr>\<rparr>)
        (run Wrapping \<lparr>input = [Got 65], outputs = [], return_output = True,
              prog = \<lparr>code = [44, 46], jumps = Map.empty\<rparr>\<rparr> 1 (- 1))
     = Some (Inr (), [[65]], [])
   \<and> map_option (effect \<lparr>input = [Got 65], outputs = [[7]], return_output = False,
                          prog = \<lparr>code = [44, 46], jumps = Map.empty\<rparr>\<rparr>)
        (run Wrapping \<lparr>input = [Got 65], outputs = [[7]], return_output = False,
              prog = \<lparr>code = [44, 46], jumps = Map.empty\<rparr>\<rparr> 1 (- 1))
     = Some (Inr (), [[65]], [])
   \<and> run Wrapping \<lparr>input = [Got 65], outputs = [[7]], return_output = True,
              prog = \<lparr>code = [44, 46], jumps = Map.empty\<rparr>\<rparr> 1 (- 1)
     = Some (Inr (Some [7, 65]),
             \<lparr>input = [], outputs = [[7], [65]], return_output = True,
              prog = \<lparr>code = [44, 46], jumps = Map.empty\<rparr>\<rparr>)"
  using deterministic_run[of
      "\<lparr>input = [Got 65], outputs = [], return_output = True,
        prog = \<lparr>code = [44, 46], jumps = Map.empty\<rparr>\<rparr>"
      "\<lparr>input = [Got 65], outputs = [[7]], return_output = False,
        prog = \<lparr>code = [44, 46], jumps = Map.empty\<rparr>\<rparr>" Wrapping 1 "- 1"]
    deterministic_run[of
      "\<lparr>input = [Got 65], outputs = [[7]], return_output = True,
        prog = \<lparr>code = [44, 46], jumps = Map.empty\<rparr>\<rparr>"
      "\<lparr>input = [Got 65], outputs = [[7]], return_output = True,
        prog = \<lparr>code = [44, 46], jumps = Map.empty\<rparr>\<rparr>" Wrapping 1 "- 1"
      "Some [7, 65]"
      "\<lparr>input = [], outputs = [[7], [65]], return_output = True,
        prog = \<lparr>code = [44, 46], jumps = Map.empty\<rparr>\<rparr>"]
  by (simp add: run_def run_loop.simps init_state_def c_len_def step_def exec_instr_def np_index_def
      np_setitem_def effect_def)

section \<open>Properties of the translator\<close>

lemma r2b_tok:
  "c \<in> set operators \<Longrightarrow>
   r2b_loop (rep_operators ! index_of operators c @ rest) 0 res = r2b_loop rest 0 (res @ [c])"
  by (auto simp: operators_def rep_operators_def)

lemma r2b_b2r_filter:
  "r2b_loop (b2r cs) 0 res = Inr (res @ filter (\<lambda>c. c \<in> set operators) cs)"
proof (induction cs arbitrary: res)
  case Nil
  then show ?case by simp
next
  case (Cons c cs)
  then show ?case using r2b_tok[of c] by (simp del: r2b_loop.simps)
qed

text \<open>
  Claim C6.  A text of operator characters, translated to tokens by \<open>_b2r\<close> and back by
  \<open>_r2b\<close>, is the text again.
\<close>

theorem roundtrip:
  assumes "set cs \<subseteq> set operators"
  shows "r2b (b2r cs) = Inr cs"
proof -
  from assms have "filter (\<lambda>c. c \<in> set operators) cs = cs"
    by (auto simp: filter_id_conv)
  then show ?thesis by (simp add: r2b_def r2b_b2r_filter)
qed

theorem roundtrip_witness:
  "set [43, 91, 45, 62, 46, 60, 44, 93] \<subseteq> set operators
   \<and> b2r [43, 91, 45, 62, 46, 60, 44, 93]
       = [12356, 12396, 12356, 12373, 12435, 12392, 12371, 12450, 12531, 12522, 12476,
          12459, 12488, 12456, 12473, 12479, 12400, 12363]
   \<and> r2b [12356, 12396, 12356, 12373, 12435, 12392, 12371, 12450, 12531, 12522, 12476,
          12459, 12488, 12456, 12473, 12479, 12400, 12363]
       = Inr [43, 91, 45, 62, 46, 60, 44, 93]"
  using roundtrip[of "[43, 91, 45, 62, 46, 60, 44, 93]"]
  by (simp add: operators_def rep_operators_def)

section \<open>Properties of the validator\<close>

lemma level_append:
  "level up down (xs @ ys) h =
     (case level up down xs h of None \<Rightarrow> None | Some h' \<Rightarrow> level up down ys h')"
  by (induction xs arbitrary: h) auto

lemma level_rev:
  "up \<noteq> down \<Longrightarrow> level up down xs h = Some h' \<Longrightarrow> level down up (rev xs) h' = Some h"
  by (induction xs arbitrary: h) (auto simp: level_append split: if_splits)

lemma scan_Some_iff:
  "up \<noteq> down \<Longrightarrow>
   scan up down cs h = Some k \<longleftrightarrow>
     k < length cs \<and> cs ! k = down \<and> level up down (take k cs) h = Some 0"
proof (induction cs arbitrary: h k)
  case Nil
  then show ?case by simp
next
  case (Cons c cs)
  show ?case
  proof (cases k)
    case 0
    then show ?thesis using Cons.prems by auto
  next
    case (Suc k')
    then show ?thesis using Cons.prems Cons.IH[of _ k'] by auto
  qed
qed

lemma scan_level_None:
  "scan up down cs h = Some k \<Longrightarrow> level up down cs h = None"
  by (induction cs arbitrary: h k) (auto split: if_splits)

lemma level_scan:
  "level up down xs D = Some e \<Longrightarrow> e + h < D \<Longrightarrow> scan up down xs h \<noteq> None"
proof (induction xs arbitrary: D h)
  case Nil
  then show ?case by simp
next
  case (Cons c cs)
  show ?case
  proof (cases "c = up")
    case True
    with Cons.prems Cons.IH[of "D + 1" "h + 1"] show ?thesis by auto
  next
    case False
    show ?thesis
    proof (cases "c = down")
      case True
      with False Cons.prems Cons.IH[of "D - 1" "h - 1"] show ?thesis
        by (auto split: if_splits)
    next
      case False
      with \<open>c \<noteq> up\<close> Cons.prems Cons.IH[of D h] show ?thesis by auto
    qed
  qed
qed

lemma level_None_first:
  "level up down xs h = None \<Longrightarrow>
   \<exists>q < length xs. xs ! q = down \<and> level up down (take q xs) h = Some 0"
proof (induction xs arbitrary: h)
  case Nil
  then show ?case by simp
next
  case (Cons c cs)
  show ?case
  proof (cases "c \<noteq> up \<and> c = down \<and> h = 0")
    case True
    then show ?thesis by (intro exI[of _ 0]) simp
  next
    case False
    then obtain h' where h': "level up down cs h' = None"
      and st: "\<And>ys. level up down (c # ys) h = level up down ys h'"
      using Cons.prems by (auto split: if_splits)
    from Cons.IH[OF h'] obtain q where "q < length cs" "cs ! q = down"
      "level up down (take q cs) h' = Some 0" by auto
    then show ?thesis using st by (intro exI[of _ "Suc q"]) simp
  qed
qed

lemma level_count:
  "up \<noteq> down \<Longrightarrow> level up down xs h = Some e \<Longrightarrow>
   e + count_list xs down = h + count_list xs up"
  by (induction xs arbitrary: h) (auto split: if_splits)

lemma bal_level: "bal xs d \<longleftrightarrow> level 91 93 xs d = Some 0"
  by (induction xs arbitrary: d) auto

lemma match_fwd_bwd:
  assumes "match_fwd c p = Some q" and "c ! p = 91"
  shows "q < length c \<and> p < q \<and> c ! q = 93 \<and> match_bwd c q = Some p"
proof -
  from assms(1) obtain k where k: "scan 91 93 (drop (p + 1) c) 0 = Some k" and q: "q = p + 1 + k"
    by (auto simp: match_fwd_def)
  from k have kl: "k < length (drop (p + 1) c)" and down: "drop (p + 1) c ! k = 93"
    and lv: "level 91 93 (take k (drop (p + 1) c)) 0 = Some 0"
    by (simp_all add: scan_Some_iff)
  from kl q have ql: "q < length c" by simp
  from down q ql have cq: "c ! q = 93" by (simp add: add.commute add.left_commute)
  have tk: "take k (rev (take q c)) = rev (take k (drop (p + 1) c))"
    using ql q by (simp add: take_rev drop_take)
  have "level 93 91 (rev (take k (drop (p + 1) c))) 0 = Some 0"
    using level_rev[OF _ lv] by simp
  moreover have "rev (take q c) ! k = 91"
    using ql q assms(2) by (simp add: rev_nth)
  moreover have "k < length (rev (take q c))" using ql q by simp
  ultimately have "scan 93 91 (rev (take q c)) 0 = Some k"
    by (simp add: scan_Some_iff tk)
  then have "match_bwd c q = Some p" using q by (simp add: match_bwd_def)
  with ql cq q show ?thesis by simp
qed

lemma match_bwd_fwd:
  assumes "match_bwd c q = Some p" and "c ! q = 93" and "q < length c"
  shows "p < q \<and> c ! p = 91 \<and> match_fwd c p = Some q"
proof -
  from assms(1) obtain k where k: "scan 93 91 (rev (take q c)) 0 = Some k" and p: "p = q - 1 - k"
    by (auto simp: match_bwd_def)
  from k have kl: "k < length (rev (take q c))" and down: "rev (take q c) ! k = 91"
    and lv: "level 93 91 (take k (rev (take q c))) 0 = Some 0"
    by (simp_all add: scan_Some_iff)
  from kl assms(3) have kq: "k < q" by simp
  with p have pq: "p < q" "q = p + 1 + k" by simp_all
  from down kq assms(3) p have cp: "c ! p = 91" by (simp add: rev_nth)
  have tk: "rev (take k (rev (take q c))) = take k (drop (p + 1) c)"
    using assms(3) pq by (simp add: take_rev drop_take)
  have "level 91 93 (rev (take k (rev (take q c)))) 0 = Some 0"
    using level_rev[OF _ lv] by simp
  then have "level 91 93 (take k (drop (p + 1) c)) 0 = Some 0" by (simp only: tk)
  moreover have "drop (p + 1) c ! k = 93"
    using assms(2,3) pq by (simp add: add.commute add.left_commute)
  moreover have "k < length (drop (p + 1) c)" using assms(3) pq by simp
  ultimately have "scan 91 93 (drop (p + 1) c) 0 = Some k"
    by (simp add: scan_Some_iff)
  then have "match_fwd c p = Some q" using pq by (simp add: match_fwd_def)
  with pq cp show ?thesis by simp
qed

lemma partner_involution:
  assumes "partner c i = Some j" and "i < length c"
  shows "j < length c \<and> c ! i \<in> {91, 93} \<and> c ! j \<in> {91, 93} \<and> c ! j \<noteq> c ! i
         \<and> partner c j = Some i"
proof (cases "c ! i = 91")
  case True
  with assms have "match_fwd c i = Some j" by (simp add: partner_def)
  from match_fwd_bwd[OF this True] True show ?thesis by (simp add: partner_def)
next
  case False
  with assms have b: "c ! i = 93" and "match_bwd c i = Some j"
    by (auto simp: partner_def split: if_splits)
  from match_bwd_fwd[OF this(2) b assms(2)] b assms(2) show ?thesis
    by (simp add: partner_def)
qed

lemma partner_other: "c ! i \<noteq> 91 \<Longrightarrow> c ! i \<noteq> 93 \<Longrightarrow> partner c i = None"
  by (simp add: partner_def)

lemma discover_post_step:
  assumes "discover_post c (Suc k) j' r" and "k < length c"
    and "j' = (if c ! k \<in> {91, 93} then j(k \<mapsto> the (partner c k)) else j)"
    and "c ! k \<in> {91, 93} \<longrightarrow> partner c k \<noteq> None"
    and "j k = None"
  shows "discover_post c k j r"
proof (cases r)
  case (Inl e)
  with assms(1) obtain i where i: "e = UnmatchedBracket i" "Suc k \<le> i" "i < length c"
    "c ! i \<in> {91, 93}" "partner c i = None"
    "\<forall>i'. Suc k \<le> i' \<and> i' < i \<and> c ! i' \<in> {91, 93} \<longrightarrow> partner c i' \<noteq> None"
    by (auto simp: discover_post_def)
  have "\<forall>i'. k \<le> i' \<and> i' < i \<and> c ! i' \<in> {91, 93} \<longrightarrow> partner c i' \<noteq> None"
  proof (intro allI impI)
    fix i' assume a: "k \<le> i' \<and> i' < i \<and> c ! i' \<in> {91, 93}"
    show "partner c i' \<noteq> None"
    proof (cases "i' = k")
      case True
      with a assms(4) show ?thesis by simp
    next
      case False
      with a have "Suc k \<le> i'" by simp
      with a i(6) show ?thesis by blast
    qed
  qed
  with i Inl show ?thesis by (auto simp: discover_post_def)
next
  case (Inr jr)
  with assms(1) have jr: "\<forall>i. jr i = (if Suc k \<le> i \<and> i < length c then partner c i else j' i)"
    and ok: "\<forall>i. Suc k \<le> i \<and> i < length c \<and> c ! i \<in> {91, 93} \<longrightarrow> partner c i \<noteq> None"
    by (auto simp: discover_post_def)
  have "\<forall>i. jr i = (if k \<le> i \<and> i < length c then partner c i else j i)"
  proof
    fix i
    show "jr i = (if k \<le> i \<and> i < length c then partner c i else j i)"
    proof (cases "i = k")
      case True
      show ?thesis
      proof (cases "c ! k \<in> {91, 93}")
        case True
        with assms(4) obtain q where "partner c k = Some q" by auto
        with True \<open>i = k\<close> jr assms(2,3) show ?thesis by simp
      next
        case False
        then have "partner c k = None" by (simp add: partner_other)
        with False \<open>i = k\<close> jr assms(2,3,5) show ?thesis by simp
      qed
    next
      case False
      then show ?thesis using jr assms(3) by (auto simp: Suc_le_eq)
    qed
  qed
  moreover have "\<forall>i. k \<le> i \<and> i < length c \<and> c ! i \<in> {91, 93} \<longrightarrow> partner c i \<noteq> None"
  proof (intro allI impI)
    fix i assume a: "k \<le> i \<and> i < length c \<and> c ! i \<in> {91, 93}"
    show "partner c i \<noteq> None"
    proof (cases "i = k")
      case True
      with a assms(4) show ?thesis by simp
    next
      case False
      with a have "Suc k \<le> i" by simp
      with a ok show ?thesis by blast
    qed
  qed
  ultimately show ?thesis using Inr by (simp add: discover_post_def)
qed

lemma discover_result:
  "\<forall>i \<ge> k. j i = None \<Longrightarrow> discover_post c k j (discover c k j)"
proof (induction "length c - k" arbitrary: k j)
  case 0
  then have "\<not> k < length c" by simp
  then have "discover c k j = Inr j" by (subst discover.simps) simp
  with \<open>\<not> k < length c\<close> show ?case by (auto simp: discover_post_def)
next
  case (Suc m)
  then have kl: "k < length c" by simp
  have jk: "j k = None" using Suc.prems by simp
  show ?case
  proof (cases "c ! k \<in> {91, 93}")
    case False
    then have d: "discover c k j = discover c (Suc k) j"
      using kl by (subst discover.simps) simp
    have "discover_post c (Suc k) j (discover c (Suc k) j)"
      using Suc.hyps(2) Suc.prems by (intro Suc.hyps(1)) auto
    then show ?thesis unfolding d
      by (rule discover_post_step) (use kl False jk in simp_all)
  next
    case True
    show ?thesis
    proof (cases "partner c k")
      case None
      have "discover c k j = Inl (UnmatchedBracket k)"
        using kl True None jk by (subst discover.simps) (auto simp: partner_def Let_def)
      then show ?thesis using kl True None by (auto simp: discover_post_def)
    next
      case (Some q)
      have d: "discover c k j = discover c (Suc k) (j(k \<mapsto> q))"
        using kl True Some by (subst discover.simps) (auto simp: partner_def Let_def)
      have "discover_post c (Suc k) (j(k \<mapsto> q)) (discover c (Suc k) (j(k \<mapsto> q)))"
        using Suc.hyps(2) Suc.prems by (intro Suc.hyps(1)) auto
      then show ?thesis unfolding d
        by (rule discover_post_step) (use kl True Some jk in simp_all)
    qed
  qed
qed

lemma bal_strip: "bal (strip src) d = bal src d"
  by (induction src arbitrary: d) (auto simp: strip_def operators_def)

lemma count_strip_open: "count_list (strip src) 91 = count_list src 91"
  by (induction src) (auto simp: strip_def operators_def)

lemma count_strip_close: "count_list (strip src) 93 = count_list src 93"
  by (induction src) (auto simp: strip_def operators_def)

lemma nested_partner:
  assumes "level 91 93 c 0 = Some 0" and "i < length c" and "c ! i \<in> {91, 93}"
  shows "partner c i \<noteq> None"
proof -
  have c: "c = take i c @ c ! i # drop (i + 1) c"
    using assms(2) by (simp add: id_take_nth_drop)
  from assms(1) obtain d where d: "level 91 93 (take i c) 0 = Some d"
    and r: "level 91 93 (c ! i # drop (i + 1) c) d = Some 0"
    by (subst (asm) c) (auto simp: level_append split: option.splits)
  show ?thesis
  proof (cases "c ! i = 91")
    case True
    with r have "level 91 93 (drop (i + 1) c) (d + 1) = Some 0" by simp
    then have "scan 91 93 (drop (i + 1) c) 0 \<noteq> None" by (rule level_scan) simp
    with True show ?thesis by (simp add: partner_def match_fwd_def)
  next
    case False
    with assms(3) have b: "c ! i = 93" by simp
    with r have "0 < d" by (auto split: if_splits)
    have "level 93 91 (rev (take i c)) d = Some 0"
      using level_rev[OF _ d] by simp
    then have "scan 93 91 (rev (take i c)) 0 \<noteq> None"
      by (rule level_scan) (use \<open>0 < d\<close> in simp)
    with b show ?thesis by (simp add: partner_def match_bwd_def)
  qed
qed

lemma crossing_partner:
  assumes "level 91 93 c 0 = None"
  shows "\<exists>q < length c. c ! q = 93 \<and> partner c q = None"
proof -
  from level_None_first[OF assms] obtain q where q: "q < length c" "c ! q = 93"
    "level 91 93 (take q c) 0 = Some 0" by auto
  have l: "level 93 91 (rev (take q c)) 0 = Some 0"
    using level_rev[OF _ q(3)] by simp
  have "scan 93 91 (rev (take q c)) 0 = None"
  proof (cases "scan 93 91 (rev (take q c)) 0")
    case (Some k)
    from scan_level_None[OF this] l show ?thesis by simp
  qed simp
  with q show ?thesis by (auto simp: partner_def match_bwd_def)
qed

lemma bf_init_cases:
  "bf_init src =
     (if count_list src 91 \<noteq> count_list src 93 then Inl UnmatchedNumber
      else map_sum id (\<lambda>j. \<lparr>code = strip src, jumps = j\<rparr>) (discover (strip src) 0 Map.empty))"
  by (simp add: bf_init_def Let_def split: sum.splits)

text \<open>
  Claim C5.  For every text whose brackets nest properly, construction succeeds; the
  jump table it builds has an entry at exactly the positions of the stripped code that
  hold a bracket, and the entry of a position is a position with the other bracket whose
  own entry leads back: \<open>jumps[jumps[p]] = p\<close>.
\<close>

theorem jump_table_symmetric:
  assumes "nests_properly src"
  shows "\<exists>p. bf_init src = Inr p \<and> code p = strip src
       \<and> dom (jumps p) = {i. i < length (code p) \<and> code p ! i \<in> {91, 93}}
       \<and> (\<forall>i j. jumps p i = Some j \<longrightarrow> jumps p j = Some i \<and> code p ! j \<noteq> code p ! i)"
proof -
  let ?c = "strip src"
  from assms have lv: "level 91 93 ?c 0 = Some 0"
    by (simp add: nests_properly_def bal_level[symmetric] bal_strip)
  from level_count[OF _ lv] have cnt: "count_list src 91 = count_list src 93"
    by (simp add: count_strip_open count_strip_close)
  have post: "discover_post ?c 0 Map.empty (discover ?c 0 Map.empty)"
    by (rule discover_result) simp
  have all: "\<And>i. i < length ?c \<Longrightarrow> ?c ! i \<in> {91, 93} \<Longrightarrow> partner ?c i \<noteq> None"
    using lv by (rule nested_partner)
  obtain j where j: "discover ?c 0 Map.empty = Inr j"
  proof (cases "discover ?c 0 Map.empty")
    case (Inl e)
    with post obtain i where "i < length ?c" "?c ! i \<in> {91, 93}" "partner ?c i = None"
      by (auto simp: discover_post_def)
    with all[of i] show ?thesis by simp
  qed simp
  with post have jp: "\<And>i. j i = (if i < length ?c then partner ?c i else None)"
    by (simp add: discover_post_def)
  let ?p = "\<lparr>code = ?c, jumps = j\<rparr>"
  have a: "bf_init src = Inr ?p" using cnt j by (simp add: bf_init_cases)
  have b: "code ?p = ?c" by simp
  have "dom j = {i. i < length ?c \<and> ?c ! i \<in> {91, 93}}"
  proof (intro set_eqI iffI)
    fix i assume "i \<in> dom j"
    then obtain q where "partner ?c i = Some q" "i < length ?c"
      by (auto simp: jp split: if_splits)
    from partner_involution[OF this] this(2)
    show "i \<in> {i. i < length ?c \<and> ?c ! i \<in> {91, 93}}" by simp
  next
    fix i assume "i \<in> {i. i < length ?c \<and> ?c ! i \<in> {91, 93}}"
    then show "i \<in> dom j" using all[of i] by (auto simp: jp)
  qed
  then have d: "dom (jumps ?p) = {i. i < length (code ?p) \<and> code ?p ! i \<in> {91, 93}}"
    by simp
  have s: "\<forall>i q. jumps ?p i = Some q \<longrightarrow> jumps ?p q = Some i \<and> code ?p ! q \<noteq> code ?p ! i"
  proof (intro allI impI)
    fix i q assume "jumps ?p i = Some q"
    then have "partner ?c i = Some q" "i < length ?c"
      by (auto simp: jp split: if_splits)
    from partner_involution[OF this]
    show "jumps ?p q = Some i \<and> code ?p ! q \<noteq> code ?p ! i"
      by (simp add: jp)
  qed
  show ?thesis
    by (intro exI[of _ ?p] conjI) (rule a b d s)+
qed

theorem jump_table_symmetric_witness:
  "nests_properly [91, 43, 91, 93, 120, 93, 91, 93]
   \<and> (\<exists>p. bf_init [91, 43, 91, 93, 120, 93, 91, 93] = Inr p
        \<and> code p = strip [91, 43, 91, 93, 120, 93, 91, 93]
        \<and> dom (jumps p) = {i. i < length (code p) \<and> code p ! i \<in> {91, 93}}
        \<and> (\<forall>i j. jumps p i = Some j \<longrightarrow> jumps p j = Some i \<and> code p ! j \<noteq> code p ! i))"
proof
  show n: "nests_properly [91, 43, 91, 93, 120, 93, 91, 93]"
    by (simp add: nests_properly_def)
  show "\<exists>p. bf_init [91, 43, 91, 93, 120, 93, 91, 93] = Inr p
        \<and> code p = strip [91, 43, 91, 93, 120, 93, 91, 93]
        \<and> dom (jumps p) = {i. i < length (code p) \<and> code p ! i \<in> {91, 93}}
        \<and> (\<forall>i j. jumps p i = Some j \<longrightarrow> jumps p j = Some i \<and> code p ! j \<noteq> code p ! i)"
    using n by (rule jump_table_symmetric)
qed

text \<open>
  Claim C7.  A text with as many \<open>[\<close> as \<open>]\<close> whose brackets do not nest properly is
  rejected with error 4, \<open>Unmatched bracket at pos k\<close>, where \<open>k\<close> is a position of the
  stripped code that holds a bracket whose scan found no partner.  For \<open>][\<close> this is
  position 0.
\<close>

theorem crossing_rejected:
  assumes "count_list src 91 = count_list src 93" and "\<not> nests_properly src"
  shows "\<exists>k. bf_init src = Inl (UnmatchedBracket k) \<and> k < length (strip src)
       \<and> strip src ! k \<in> {91, 93} \<and> partner (strip src) k = None"
proof -
  let ?c = "strip src"
  from assms(2) have nl: "level 91 93 ?c 0 \<noteq> Some 0"
    by (simp add: nests_properly_def bal_level[symmetric] bal_strip)
  have "level 91 93 ?c 0 = None"
  proof (cases "level 91 93 ?c 0")
    case (Some e)
    from level_count[OF _ this] assms(1) have "e = 0"
      by (simp add: count_strip_open count_strip_close)
    with Some nl show ?thesis by simp
  qed simp
  from crossing_partner[OF this] obtain q where q: "q < length ?c" "?c ! q = 93"
    "partner ?c q = None" by auto
  have post: "discover_post ?c 0 Map.empty (discover ?c 0 Map.empty)"
    by (rule discover_result) simp
  obtain e where e: "discover ?c 0 Map.empty = Inl e"
  proof (cases "discover ?c 0 Map.empty")
    case (Inr j)
    with post q show ?thesis by (auto simp: discover_post_def)
  qed simp
  with post obtain k where "e = UnmatchedBracket k" "k < length ?c" "?c ! k \<in> {91, 93}"
    "partner ?c k = None"
    by (auto simp: discover_post_def)
  with e assms(1) show ?thesis by (auto simp: bf_init_cases)
qed

theorem crossing_rejected_witness:
  "count_list [93, 91 :: uchar] 91 = count_list [93, 91 :: uchar] 93
   \<and> \<not> nests_properly [93, 91]
   \<and> bf_init [93, 91] = Inl (UnmatchedBracket 0)"
  using crossing_rejected[of "[93, 91]"]
  by (simp add: nests_properly_def bf_init_def strip_def operators_def discover.simps
      match_bwd_def Let_def)

end
